theory Spec2Isabelle
  imports Complex_Main "HOL-Library.Sublist" "HOL-Library.Log_Nat"
begin

unbundle bit_operations_syntax

section \<open>Data model (maxcalorie.hh)\<close>

text \<open>
  A \<open>FoodItem\<close> holds a description, a weight in ounces and a calorie count. A
  \<open>double\<close> is modelled by the real number it stands for; every sum and difference of
  doubles is rounded to the nearest \<open>double\<close> (\<open>dadd\<close>, \<open>dsub\<close> below), comparisons
  are exact. A \<open>FoodVector\<close> is a vector of shared pointers to items; the model keeps the
  items themselves, in vector order.
\<close>

record FoodItem =
  description :: string
  weight :: real
  foodCalories :: real

type_synonym FoodVector = "FoodItem list"

text \<open>
  What can go wrong in a call: a failed \<open>assert\<close>, a \<open>double\<close> that does not fit the
  \<open>int\<close> it is converted to (or an \<open>int\<close> counter stepping past \<open>INT_MAX\<close>), and a
  vector read outside its bounds. The last two are undefined behaviour in C++; the model
  stops with the error instead of inventing a result.
\<close>

datatype error = AssertionFailed | IntOverflow | OutOfRange

text \<open>The constructor: its two assertions are the invariant of every item of a catalog.\<close>

definition make_FoodItem :: "string \<Rightarrow> real \<Rightarrow> real \<Rightarrow> error + FoodItem" where
  "make_FoodItem descr weight_ounces calories =
     (if descr = [] then Inl AssertionFailed
      else if \<not> weight_ounces > 0 then Inl AssertionFailed
      else Inr \<lparr>description = descr, weight = weight_ounces, foodCalories = calories\<rparr>)"

subsection \<open>Arithmetic on doubles\<close>

text \<open>
  IEEE 754 binary64, rounding to nearest with ties to even. \<open>pow2 q\<close> is \<open>2^q\<close> for an
  integer \<open>q\<close>; \<open>expo x\<close> is the binary exponent \<open>e\<close> of a non-zero \<open>x\<close>, the one with
  \<open>2^e \<le> |x| < 2^(e+1)\<close>; a \<open>double\<close> with that exponent is a multiple of \<open>2^(e-52)\<close>,
  and of \<open>2^(-1074)\<close> in the subnormal range. \<open>to_double x\<close> is the multiple nearest to
  \<open>x\<close>, the one with the even significand when two are equally near. Infinities and NaN are
  not values of the model: it covers finite fields and sums below \<open>2^1024\<close>.
\<close>

definition pow2 :: "int \<Rightarrow> real" where
  "pow2 q = (if 0 \<le> q then 2 ^ nat q else 1 / 2 ^ nat (- q))"

definition round_even :: "real \<Rightarrow> int" where
  "round_even y =
     (let f = \<lfloor>y\<rfloor>; d = y - real_of_int f
      in if d < 1 / 2 then f
         else if 1 / 2 < d then f + 1
         else if even f then f else f + 1)"

definition expo :: "real \<Rightarrow> int" where
  "expo x = (if 1 \<le> \<bar>x\<bar> then bitlen \<lfloor>\<bar>x\<bar>\<rfloor> - 1 else - bitlen (\<lceil>1 / \<bar>x\<bar>\<rceil> - 1))"

definition to_double :: "real \<Rightarrow> real" where
  "to_double x =
     (if x = 0 then 0
      else let q = max (expo x - 52) (- 1074)
           in real_of_int (round_even (x / pow2 q)) * pow2 q)"

text \<open>\<open>a + b\<close> and \<open>a - b\<close> on doubles.\<close>

definition dadd :: "real \<Rightarrow> real \<Rightarrow> real" where
  "dadd a b = to_double (a + b)"

definition dsub :: "real \<Rightarrow> real \<Rightarrow> real" where
  "dsub a b = to_double (a - b)"

subsection \<open>Conversions and checked reads\<close>

text \<open>
  \<open>double\<close> to \<open>int\<close> (32 bits): truncation towards zero, defined only when the
  truncated value is an \<open>int\<close>.
\<close>

definition trunc :: "real \<Rightarrow> int" where
  "trunc x = (if 0 \<le> x then \<lfloor>x\<rfloor> else \<lceil>x\<rceil>)"

definition double_to_int :: "real \<Rightarrow> int option" where
  "double_to_int x =
     (if - (2 ^ 31) \<le> trunc x \<and> trunc x < 2 ^ 31 then Some (trunc x) else None)"

text \<open>\<open>v[i]\<close> on a vector: an index outside \<open>0 .. size - 1\<close> is an error.\<close>

definition vec_at :: "'a list \<Rightarrow> int \<Rightarrow> error + 'a" where
  "vec_at xs i = (if 0 \<le> i \<and> i < int (length xs) then Inr (xs ! nat i) else Inl OutOfRange)"

subsection \<open>sum\_food\_vector\<close>

fun sum_loop :: "FoodVector \<Rightarrow> real \<Rightarrow> real \<Rightarrow> real \<times> real" where
  "sum_loop [] total_weight total_calories = (total_weight, total_calories)"
| "sum_loop (food # rest) total_weight total_calories =
     sum_loop rest (dadd total_weight (weight food)) (dadd total_calories (foodCalories food))"

text \<open>The two reference parameters are returned as a pair (weight, calories).\<close>

definition sum_food_vector :: "FoodVector \<Rightarrow> real \<times> real" where
  "sum_food_vector foods = sum_loop foods 0 0"

definition total_weight_of :: "FoodVector \<Rightarrow> real" where
  "total_weight_of foods = fst (sum_food_vector foods)"

definition total_calories_of :: "FoodVector \<Rightarrow> real" where
  "total_calories_of foods = snd (sum_food_vector foods)"

subsection \<open>filter\_food\_vector\<close>

text \<open>
  The range-for loop with its \<open>break\<close>: \<open>acc\<close> is \<open>FilteredFoodVector\<close>. The
  \<open>nullptr\<close> returned for a non-positive \<open>total_size\<close> is \<open>None\<close>. \<open>total_size\<close> is
  an \<open>int\<close> that is only compared, never computed with, so it is a HOL integer.
\<close>

fun filter_loop :: "FoodVector \<Rightarrow> real \<Rightarrow> real \<Rightarrow> int \<Rightarrow> FoodVector \<Rightarrow> FoodVector" where
  "filter_loop [] min_calories max_calories total_size acc = acc"
| "filter_loop (food # rest) min_calories max_calories total_size acc =
     (if foodCalories food \<ge> min_calories \<and> foodCalories food \<le> max_calories then
        (if int (length acc) < total_size
         then filter_loop rest min_calories max_calories total_size (acc @ [food])
         else acc)
      else filter_loop rest min_calories max_calories total_size acc)"

definition filter_food_vector :: "FoodVector \<Rightarrow> real \<Rightarrow> real \<Rightarrow> int \<Rightarrow> FoodVector option" where
  "filter_food_vector source min_calories max_calories total_size =
     (if total_size \<le> 0 then None
      else Some (filter_loop source min_calories max_calories total_size []))"

subsection \<open>exhaustive\_max\_calories\<close>

text \<open>The variables the two nested loops update.\<close>

record exh_state =
  BestFoodVector :: FoodVector
  bestTotalCalries :: real
  CandidateFoodVector :: FoodVector
  candTotalWeight :: real
  candTotalCalories :: real

text \<open>
  One pass of the inner loop body, for the loop variable \<open>bit\<close> (here \<open>bitmask\<close>, since
  \<open>bit\<close> is a HOL constant) and position \<open>j\<close>: the item is appended when
  \<open>((bit >> j) & 1) == 1\<close>, and the comparison with the best subset so far
  runs in every pass, on the candidate built up to position \<open>j\<close>.
\<close>

definition exh_body :: "FoodVector \<Rightarrow> real \<Rightarrow> int \<Rightarrow> nat \<Rightarrow> exh_state \<Rightarrow> exh_state" where
  "exh_body foods total_weight bitmask j st =
     (let st1 =
        (if (drop_bit j bitmask) AND 1 = 1
         then st\<lparr>CandidateFoodVector := CandidateFoodVector st @ [foods ! j],
                 candTotalWeight := dadd (candTotalWeight st) (weight (foods ! j)),
                 candTotalCalories := dadd (candTotalCalories st) (foodCalories (foods ! j))\<rparr>
         else st)
      in if candTotalWeight st1 \<le> total_weight then
           (if candTotalCalories st1 > bestTotalCalries st1
            then st1\<lparr>BestFoodVector := CandidateFoodVector st1,
                      bestTotalCalries := candTotalCalories st1\<rparr>
            else st1)
         else st1)"

text \<open>
  The inner loop \<open>for (int j = 0; j < int(foods.size()); j++)\<close>, after the candidate has
  been cleared; \<open>j\<close> stays below the size, so \<open>foods[j]\<close> is in range.
\<close>

definition exh_inner :: "FoodVector \<Rightarrow> real \<Rightarrow> int \<Rightarrow> exh_state \<Rightarrow> exh_state" where
  "exh_inner foods total_weight bitmask st =
     fold (exh_body foods total_weight bitmask) [0..<length foods]
       (st\<lparr>CandidateFoodVector := [], candTotalWeight := 0, candTotalCalories := 0\<rparr>)"

text \<open>The outer loop \<open>for (int bit = 0; bit < bitSize; bit++)\<close>.\<close>

definition exh_outer :: "FoodVector \<Rightarrow> real \<Rightarrow> int \<Rightarrow> exh_state \<Rightarrow> exh_state" where
  "exh_outer foods total_weight bitSize st =
     fold (\<lambda>b. exh_inner foods total_weight (int b)) [0..<nat bitSize] st"

text \<open>
  The function: \<open>assert(n < 64)\<close> (the size of the catalog is taken to fit the
  \<open>int n\<close>), then \<open>int bitSize = pow(2, foods.size())\<close>, a \<open>double\<close> converted to
  a 32-bit \<open>int\<close>; from 31 items on the power does not fit.
  The candidate vector starts as a copy of \<open>foods\<close> and is cleared before its first use.
\<close>

definition exhaustive_max_calories :: "FoodVector \<Rightarrow> real \<Rightarrow> error + FoodVector" where
  "exhaustive_max_calories foods total_weight =
     (if \<not> int (length foods) < 64 then Inl AssertionFailed
      else case double_to_int (2 ^ length foods) of
        None \<Rightarrow> Inl IntOverflow
      | Some bitSize \<Rightarrow>
          Inr (BestFoodVector
            (exh_outer foods total_weight bitSize
               \<lparr>BestFoodVector = [], bestTotalCalries = 0, CandidateFoodVector = foods,
                candTotalWeight = 0, candTotalCalories = 0\<rparr>)))"

subsection \<open>dynamic\_max\_calories\<close>

text \<open>
  The column counters \<open>init\<close> and \<open>j\<close> run through the \<open>int\<close> values \<open>0, 1, ...\<close> that
  are at most \<open>total_weight\<close>.
\<close>

definition dp_columns :: "real \<Rightarrow> int list" where
  "dp_columns total_weight = map int [0..<nat (\<lfloor>total_weight\<rfloor> + 1)]"

text \<open>
  One entry of the new row \<open>Temp\<close>, computed from the row above, \<open>Ti = T[i]\<close>. The index
  \<open>j - foods[i]->weight()\<close> is a \<open>double\<close> difference, truncated when it is used as a
  vector index.
\<close>

definition dp_cell :: "FoodItem \<Rightarrow> real list \<Rightarrow> int \<Rightarrow> error + real" where
  "dp_cell food Ti j =
     (if weight food \<le> real_of_int j then
        (case vec_at Ti (trunc (dsub (real_of_int j) (weight food))) of
           Inl e \<Rightarrow> Inl e
         | Inr a \<Rightarrow>
            (case vec_at Ti j of
               Inl e \<Rightarrow> Inl e
             | Inr b \<Rightarrow> Inr (max (dadd (foodCalories food) a) b)))
      else vec_at Ti j)"

text \<open>The loop over the columns \<open>j\<close>, pushing each entry onto \<open>Temp\<close>.\<close>

fun dp_row :: "FoodItem \<Rightarrow> real list \<Rightarrow> int list \<Rightarrow> real list \<Rightarrow> error + real list" where
  "dp_row food Ti [] Temp = Inr Temp"
| "dp_row food Ti (j # js) Temp =
     (case dp_cell food Ti j of
        Inl e \<Rightarrow> Inl e
      | Inr v \<Rightarrow> dp_row food Ti js (Temp @ [v]))"

text \<open>The loop over the items \<open>i\<close>, pushing each finished row onto \<open>T\<close>.\<close>

fun dp_rows :: "FoodVector \<Rightarrow> int list \<Rightarrow> nat list \<Rightarrow> real list list \<Rightarrow> error + real list list" where
  "dp_rows foods cols [] T = Inr T"
| "dp_rows foods cols (i # is) T =
     (case vec_at T (int i) of
        Inl e \<Rightarrow> Inl e
      | Inr Ti \<Rightarrow>
         (case dp_row (foods ! i) Ti cols [] of
            Inl e \<Rightarrow> Inl e
          | Inr Temp \<Rightarrow> dp_rows foods cols is (T @ [Temp])))"

text \<open>
  The table as built before the traceback. The first loop stops only when \<open>init\<close> exceeds
  \<open>total_weight\<close>, so a capacity of \<open>INT_MAX\<close> or more steps the counter past
  \<open>INT_MAX\<close>. The size of the catalog is taken to fit an \<open>int\<close>.
\<close>

definition dp_table :: "FoodVector \<Rightarrow> real \<Rightarrow> error + real list list" where
  "dp_table foods total_weight =
     (if 2 ^ 31 - 1 \<le> total_weight then Inl IntOverflow
      else dp_rows foods (dp_columns total_weight) [0..<length foods]
             [map (\<lambda>init. 0) (dp_columns total_weight)])"

text \<open>\<open>T[i][step]\<close>.\<close>

definition vec_at2 :: "real list list \<Rightarrow> int \<Rightarrow> int \<Rightarrow> error + real" where
  "vec_at2 T i j = (case vec_at T i of Inl e \<Rightarrow> Inl e | Inr row \<Rightarrow> vec_at row j)"

text \<open>
  The traceback \<open>for (int i = foods.size(); i > 0; i--)\<close>; the first argument counts
  \<open>i\<close> down, and \<open>step -= foods[i-1]->weight()\<close> converts the \<open>double\<close> difference back
  to \<open>int\<close>.
\<close>

fun traceback :: "real list list \<Rightarrow> FoodVector \<Rightarrow> nat \<Rightarrow> int \<Rightarrow> FoodVector \<Rightarrow> error + FoodVector" where
  "traceback T foods 0 step best = Inr best"
| "traceback T foods (Suc i) step best =
     (case vec_at2 T (int (Suc i)) step of
        Inl e \<Rightarrow> Inl e
      | Inr a \<Rightarrow>
         (case vec_at2 T (int i) step of
            Inl e \<Rightarrow> Inl e
          | Inr b \<Rightarrow>
             if a \<noteq> b then
               (case double_to_int (dsub (real_of_int step) (weight (foods ! i))) of
                  None \<Rightarrow> Inl IntOverflow
                | Some step' \<Rightarrow> traceback T foods i step' (best @ [foods ! i]))
             else traceback T foods i step best))"

definition dynamic_max_calories :: "FoodVector \<Rightarrow> real \<Rightarrow> error + FoodVector" where
  "dynamic_max_calories foods total_weight =
     (case dp_table foods total_weight of
        Inl e \<Rightarrow> Inl e
      | Inr T \<Rightarrow>
         (case double_to_int total_weight of
            None \<Rightarrow> Inl IntOverflow
          | Some step \<Rightarrow> traceback T foods (length foods) step []))"

section \<open>Notions used to state and prove the properties\<close>

subsection \<open>Items for the worked examples\<close>

definition item :: "real \<Rightarrow> real \<Rightarrow> FoodItem" where
  "item w c = \<lparr>description = ''food'', weight = w, foodCalories = c\<rparr>"

subsection \<open>Rounded and exact sums\<close>

text \<open>The sum of a list of doubles as a loop computes it, from 0 and left to right.\<close>

definition dsum :: "real list \<Rightarrow> real" where
  "dsum xs = foldl dadd 0 xs"

text \<open>
  A catalog on which double arithmetic is exact: the weights are non-negative integers, the
  calories are integers, and the absolute values of the calories add up to at most \<open>2^53\<close>.
\<close>

definition integral_catalog :: "FoodVector \<Rightarrow> bool" where
  "integral_catalog foods \<longleftrightarrow>
     (\<forall>f\<in>set foods. weight f \<in> \<nat> \<and> foodCalories f \<in> \<int>)
     \<and> sum_list (map (\<lambda>f. \<bar>foodCalories f\<bar>) foods) \<le> 2 ^ 53"

subsection \<open>The candidates of the exhaustive search\<close>

text \<open>
  The comparison at the end of the inner loop body, as a step on the pair
  (\<open>BestFoodVector\<close>, \<open>bestTotalCalries\<close>) for a candidate \<open>c\<close>.
\<close>

definition check_cand :: "real \<Rightarrow> FoodVector \<Rightarrow> FoodVector \<times> real \<Rightarrow> FoodVector \<times> real" where
  "check_cand W c p =
     (if total_weight_of c \<le> W \<and> total_calories_of c > snd p then (c, total_calories_of c) else p)"

text \<open>
  The candidate for mask \<open>b\<close> after \<open>k\<close> passes of the inner loop: the items among the
  first \<open>k\<close> whose bit is set in \<open>b\<close>. With \<open>k\<close> the size of the catalog it is the
  subset that the mask \<open>b\<close> denotes.
\<close>

definition sel :: "FoodVector \<Rightarrow> nat \<Rightarrow> nat \<Rightarrow> FoodVector" where
  "sel foods b k = nths (take k foods) {j. bit b j}"

text \<open>All candidates compared while the masks below \<open>B\<close> are enumerated, in order.\<close>

definition exh_cands :: "FoodVector \<Rightarrow> nat \<Rightarrow> FoodVector list" where
  "exh_cands foods B = concat (map (\<lambda>b. map (sel foods b) [1..<Suc (length foods)]) [0..<B])"

subsection \<open>The entries of the table\<close>

text \<open>
  The value that the table loop stores in row \<open>k\<close>, column \<open>j\<close>, written as a recursion on
  the row; \<open>dp_table_eq\<close> below shows that the table built by the loops holds exactly
  these values.
\<close>

fun dp_entry :: "FoodVector \<Rightarrow> nat \<Rightarrow> nat \<Rightarrow> real" where
  "dp_entry foods 0 j = 0"
| "dp_entry foods (Suc k) j =
     (if weight (foods ! k) \<le> real j
      then max (dadd (foodCalories (foods ! k))
                  (dp_entry foods k (nat (trunc (dsub (real j) (weight (foods ! k)))))))
               (dp_entry foods k j)
      else dp_entry foods k j)"

text \<open>Row \<open>k\<close> of a table with \<open>n\<close> columns.\<close>

definition table_row :: "FoodVector \<Rightarrow> nat \<Rightarrow> nat \<Rightarrow> real list" where
  "table_row foods n k = map (dp_entry foods k) [0..<n]"

text \<open>
  The same recurrence in exact arithmetic on integer weights: the best value that the first
  \<open>k\<close> items reach within capacity \<open>j\<close>.
\<close>

fun dp_ideal :: "FoodVector \<Rightarrow> nat \<Rightarrow> nat \<Rightarrow> real" where
  "dp_ideal foods 0 j = 0"
| "dp_ideal foods (Suc k) j =
     (if weight (foods ! k) \<le> real j
      then max (foodCalories (foods ! k)
                  + dp_ideal foods k (nat (trunc (real j - weight (foods ! k)))))
               (dp_ideal foods k j)
      else dp_ideal foods k j)"

text \<open>
  What the traceback has collected when it stands at row \<open>i\<close>: items of the catalog at
  strictly decreasing positions below \<open>i\<close>.
\<close>

definition traced :: "FoodVector \<Rightarrow> nat \<Rightarrow> FoodVector \<Rightarrow> bool" where
  "traced foods i xs \<longleftrightarrow>
     (\<exists>idxs. xs = map ((!) foods) idxs \<and> sorted_wrt (>) idxs \<and> (\<forall>x\<in>set idxs. x < i))
     \<and> subseq (rev xs) (take i foods)"

text \<open>
  The items that the traceback collects from row \<open>i\<close> and column \<open>j\<close> down, in
  the order in which it collects them; \<open>traceback_eq\<close> below shows that the loop returns
  exactly this list.
\<close>

fun trace_items :: "FoodVector \<Rightarrow> nat \<Rightarrow> nat \<Rightarrow> FoodVector" where
  "trace_items foods 0 j = []"
| "trace_items foods (Suc i) j =
     (if dp_entry foods (Suc i) j \<noteq> dp_entry foods i j
      then foods ! i # trace_items foods i (nat (trunc (dsub (real j) (weight (foods ! i)))))
      else trace_items foods i j)"
section \<open>Rounding\<close>

lemma pow2_pos: "0 < pow2 q"
  by (simp add: pow2_def)

lemma pow2_nonpos: "q \<le> 0 \<Longrightarrow> pow2 q = 1 / 2 ^ nat (- q)"
  by (auto simp: pow2_def)

lemma round_even_of_int: "round_even (real_of_int m) = m"
  by (simp add: round_even_def)

lemma round_even_le:
  assumes "y \<le> real_of_int m"
  shows "round_even y \<le> m"
proof -
  have f: "\<lfloor>y\<rfloor> \<le> m" using assms by (simp add: floor_le_iff)
  show ?thesis
  proof (cases "\<lfloor>y\<rfloor> = m")
    case True
    then have "real_of_int \<lfloor>y\<rfloor> = y" using assms of_int_floor_le [of y] by linarith
    then have "y - real_of_int \<lfloor>y\<rfloor> < 1 / 2" by linarith
    then show ?thesis using True by (simp add: round_even_def Let_def)
  next
    case False
    then have "\<lfloor>y\<rfloor> + 1 \<le> m" using f by linarith
    then show ?thesis by (simp add: round_even_def Let_def)
  qed
qed

lemma round_even_ge:
  assumes "real_of_int m \<le> y"
  shows "m \<le> round_even y"
proof -
  have "m \<le> \<lfloor>y\<rfloor>" using assms by (simp add: le_floor_iff)
  then show ?thesis by (simp add: round_even_def Let_def)
qed

lemma expo_small:
  assumes "\<bar>x\<bar> < 2 ^ 53"
  shows "expo x \<le> 52"
proof (cases "1 \<le> \<bar>x\<bar>")
  case True
  have "real_of_int \<lfloor>\<bar>x\<bar>\<rfloor> \<le> \<bar>x\<bar>" by (rule of_int_floor_le)
  then have "real_of_int \<lfloor>\<bar>x\<bar>\<rfloor> < real_of_int (2 ^ 53)" using assms by simp
  then have "\<lfloor>\<bar>x\<bar>\<rfloor> < 2 ^ 53" by (simp only: of_int_less_iff)
  then have "bitlen \<lfloor>\<bar>x\<bar>\<rfloor> \<le> 53"
    by (simp add: bitlen_le_iff_power)
  then show ?thesis using True by (simp add: expo_def)
next
  case False
  then show ?thesis using bitlen_nonneg [of "\<lceil>1 / \<bar>x\<bar>\<rceil> - 1"] by (simp add: expo_def)
qed


lemma to_double_zero [simp]: "to_double 0 = 0"
  by (simp add: to_double_def)

lemma to_double_nonneg:
  assumes "0 \<le> x"
  shows "0 \<le> to_double x"
proof (cases "x = 0")
  case True
  then show ?thesis by simp
next
  case False
  define q where "q = max (expo x - 52) (- 1074)"
  have "real_of_int 0 \<le> x / pow2 q" using assms pow2_pos [of q] by simp
  then have "0 \<le> round_even (x / pow2 q)" by (rule round_even_ge)
  then have "0 \<le> real_of_int (round_even (x / pow2 q)) * pow2 q"
    using pow2_pos [of q] by simp
  then show ?thesis using False by (simp add: to_double_def q_def Let_def)
qed


text \<open>
  Below \<open>2^53\<close> the spacing of the doubles is at most 1, so rounding never crosses an
  integer.
\<close>

lemma to_double_between:
  assumes "\<bar>x\<bar> < 2 ^ 53" and "real_of_int a \<le> x" and "x \<le> real_of_int b"
  shows "real_of_int a \<le> to_double x" and "to_double x \<le> real_of_int b"
proof -
  have both: "real_of_int a \<le> to_double x \<and> to_double x \<le> real_of_int b"
  proof (cases "x = 0")
    case True
    then show ?thesis using assms(2,3) by simp
  next
    case False
    define q where "q = max (expo x - 52) (- 1074)"
    define n where "n = nat (- q)"
    have "q \<le> 0" unfolding q_def using expo_small [OF assms(1)] by simp
    then have p: "pow2 q = 1 / 2 ^ n" unfolding n_def by (rule pow2_nonpos)
    have d: "x / pow2 q = x * 2 ^ n" unfolding p by simp
    have "real_of_int a * 2 ^ n \<le> x * 2 ^ n" using assms(2) by simp
    then have "real_of_int (a * 2 ^ n) \<le> x / pow2 q" unfolding d by simp
    then have lo: "a * 2 ^ n \<le> round_even (x / pow2 q)" by (rule round_even_ge)
    have "x * 2 ^ n \<le> real_of_int b * 2 ^ n" using assms(3) by simp
    then have "x / pow2 q \<le> real_of_int (b * 2 ^ n)" unfolding d by simp
    then have hi: "round_even (x / pow2 q) \<le> b * 2 ^ n" by (rule round_even_le)
    define r where "r = round_even (x / pow2 q)"
    have t: "to_double x = real_of_int r / 2 ^ n"
      using False by (simp add: to_double_def q_def [symmetric] Let_def r_def p)
    have "real_of_int (a * 2 ^ n) \<le> real_of_int r" using lo unfolding r_def by (simp only: of_int_le_iff)
    then have 1: "real_of_int a \<le> real_of_int r / 2 ^ n" by (simp add: pos_le_divide_eq)
    have "real_of_int r \<le> real_of_int (b * 2 ^ n)" using hi unfolding r_def by (simp only: of_int_le_iff)
    then have 2: "real_of_int r / 2 ^ n \<le> real_of_int b" by (simp add: pos_divide_le_eq)
    show ?thesis unfolding t using 1 2 by (rule conjI)
  qed
  show "real_of_int a \<le> to_double x" using both by (rule conjunct1)
  show "to_double x \<le> real_of_int b" using both by (rule conjunct2)
qed

lemma to_double_2_53: "to_double (2 ^ 53) = 2 ^ 53" "to_double (- (2 ^ 53)) = - (2 ^ 53)"
  by code_simp+

lemma to_double_int_exact:
  assumes "\<bar>real_of_int k\<bar> \<le> 2 ^ 53"
  shows "to_double (real_of_int k) = real_of_int k"
proof (cases "\<bar>real_of_int k\<bar> < 2 ^ 53")
  case True
  from to_double_between [OF True order_refl order_refl]
  show ?thesis by (rule antisym [rotated])
next
  case False
  then have "\<bar>real_of_int k\<bar> = 2 ^ 53" using assms by linarith
  then have "real_of_int k = 2 ^ 53 \<or> real_of_int k = - (2 ^ 53)" by linarith
  then show ?thesis using to_double_2_53 by auto
qed

lemma to_double_large:
  assumes "2 ^ 53 \<le> x"
  shows "2 ^ 53 \<le> to_double x"
proof -
  define m where "m = \<lfloor>\<bar>x\<bar>\<rfloor>"
  have ax: "\<bar>x\<bar> = x" "1 \<le> \<bar>x\<bar>" "x \<noteq> 0" using assms by simp_all
  have "real_of_int (2 ^ 53) \<le> x" using assms by simp
  then have m53: "2 ^ 53 \<le> m" unfolding m_def ax(1) by (simp only: le_floor_iff)
  then have mpos: "0 < m" by simp
  have "54 \<le> bitlen m" using m53 by (simp add: bitlen_ge_iff_power)
  define e where "e = bitlen m - 1"
  have e53: "53 \<le> e" unfolding e_def using \<open>54 \<le> bitlen m\<close> by simp
  have ex: "expo x = e" unfolding expo_def e_def m_def using ax(2) by simp
  define n where "n = nat (e - 52)"
  have n1: "1 \<le> n" unfolding n_def using e53 by simp
  have q: "max (expo x - 52) (- 1074) = int n" unfolding ex n_def using e53 by simp
  have p: "pow2 (int n) = 2 ^ n" by (simp add: pow2_def)
  have "2 ^ nat e \<le> m" using bitlen_bounds [OF mpos] unfolding e_def by simp
  moreover have "nat e = n + 52" unfolding n_def using e53 by simp
  ultimately have "2 ^ (n + 52) \<le> m" by simp
  then have "real_of_int (2 ^ (n + 52)) \<le> real_of_int m" by (simp only: of_int_le_iff)
  also have "real_of_int m \<le> x" unfolding m_def ax(1) by (rule of_int_floor_le)
  finally have "(2::real) ^ (n + 52) \<le> x" by simp
  then have "(2::real) ^ 52 * 2 ^ n \<le> x" by (simp add: power_add mult.commute)
  then have "real_of_int (2 ^ 52) \<le> x / 2 ^ n" by (simp add: pos_le_divide_eq)
  then have "2 ^ 52 \<le> round_even (x / 2 ^ n)" by (rule round_even_ge)
  then have "real_of_int (2 ^ 52) \<le> real_of_int (round_even (x / 2 ^ n))"
    by (simp only: of_int_le_iff)
  then have r: "(2::real) ^ 52 \<le> real_of_int (round_even (x / 2 ^ n))" by simp
  have "(2::real) ^ 1 \<le> 2 ^ n" using n1 by (intro power_increasing) simp_all
  then have "(2::real) ^ 52 * 2 \<le> real_of_int (round_even (x / 2 ^ n)) * 2 ^ n"
    using r by (intro mult_mono) simp_all
  then have "2 ^ 53 \<le> real_of_int (round_even (x / 2 ^ n)) * 2 ^ n" by simp
  then show ?thesis using ax(3) by (simp add: to_double_def q p Let_def)
qed

lemma dsum_Nil [simp]: "dsum [] = 0"
  by (simp add: dsum_def)

lemma dsum_snoc [simp]: "dsum (xs @ [x]) = dadd (dsum xs) x"
  by (simp add: dsum_def)

lemma dsum_nonneg: "\<forall>x\<in>set xs. 0 \<le> x \<Longrightarrow> 0 \<le> dsum xs"
proof (induction xs rule: rev_induct)
  case Nil
  show ?case by simp
next
  case (snoc x xs)
  then have "0 \<le> dsum xs + x" by simp
  then show ?case unfolding dsum_snoc dadd_def by (rule to_double_nonneg)
qed


lemma Ints_sum_list: "\<forall>x\<in>set xs. x \<in> \<int> \<Longrightarrow> sum_list xs \<in> \<int>"
  by (induction xs) simp_all

lemma to_double_Ints_exact:
  assumes "x \<in> \<int>" and "\<bar>x\<bar> \<le> 2 ^ 53"
  shows "to_double x = x"
proof -
  from assms(1) obtain k where k: "x = real_of_int k" by (rule Ints_cases)
  show ?thesis using assms(2) unfolding k by (rule to_double_int_exact)
qed

text \<open>Sums of integers are exact as long as the absolute values add up to at most \<open>2^53\<close>.\<close>

lemma dsum_exact:
  assumes "\<forall>x\<in>set xs. x \<in> \<int>" and "sum_list (map abs xs) \<le> 2 ^ 53"
  shows "dsum xs = sum_list xs"
  using assms
proof (induction xs rule: rev_induct)
  case Nil
  show ?case by simp
next
  case (snoc x xs)
  have a: "0 \<le> \<bar>x\<bar>" by simp
  have le: "sum_list (map abs xs) \<le> 2 ^ 53" using snoc.prems(2) a by simp
  have ih: "dsum xs = sum_list xs" using snoc.prems(1) le by (intro snoc.IH) simp_all
  have i: "sum_list (xs @ [x]) \<in> \<int>" using snoc.prems(1) by (rule Ints_sum_list)
  have "\<bar>sum_list (xs @ [x])\<bar> \<le> sum_list (map abs (xs @ [x]))" by (rule sum_list_abs)
  then have b: "\<bar>sum_list (xs @ [x])\<bar> \<le> 2 ^ 53" using snoc.prems(2) by linarith
  have "dsum (xs @ [x]) = to_double (sum_list xs + x)" unfolding dsum_snoc dadd_def ih ..
  also have "sum_list xs + x = sum_list (xs @ [x])" by simp
  also have "to_double (sum_list (xs @ [x])) = sum_list (xs @ [x])"
    using i b by (rule to_double_Ints_exact)
  finally show ?case .
qed

lemma sum_list_nonneg_real: "\<forall>x\<in>set xs. (0::real) \<le> x \<Longrightarrow> 0 \<le> sum_list xs"
  by (induction xs) simp_all

text \<open>
  A sum of non-negative integers is exact up to \<open>2^53\<close>, and once the exact sum is beyond
  \<open>2^53\<close> the rounded one is at least \<open>2^53\<close>.
\<close>

lemma Nats_nonneg_real: "(x::real) \<in> \<nat> \<Longrightarrow> 0 \<le> x"
  by (auto elim: Nats_cases)

lemma dsum_Nats:
  assumes "\<forall>x\<in>set xs. x \<in> \<nat>"
  shows "(sum_list xs \<le> 2 ^ 53 \<longrightarrow> dsum xs = sum_list xs)
       \<and> (2 ^ 53 < sum_list xs \<longrightarrow> 2 ^ 53 \<le> dsum xs)"
  using assms
proof (induction xs rule: rev_induct)
  case Nil
  show ?case by simp
next
  case (snoc x xs)
  have xs: "\<forall>x\<in>set xs. x \<in> \<nat>" using snoc.prems by simp
  note ih = snoc.IH [OF xs]
  have x: "x \<in> \<nat>" using snoc.prems by simp
  then have x0: "0 \<le> x" by (rule Nats_nonneg_real)
  have "\<forall>x\<in>set xs. 0 \<le> x" using xs Nats_nonneg_real by blast
  then have s0: "0 \<le> sum_list xs" by (rule sum_list_nonneg_real)
  have "\<forall>y\<in>set (xs @ [x]). y \<in> \<int>" using snoc.prems Nats_subset_Ints by blast
  then have i: "sum_list (xs @ [x]) \<in> \<int>" by (rule Ints_sum_list)
  show ?case
  proof (intro conjI impI)
    assume le: "sum_list (xs @ [x]) \<le> 2 ^ 53"
    then have "sum_list xs \<le> 2 ^ 53" using x0 by simp
    then have e: "dsum xs = sum_list xs" using ih by blast
    have "\<bar>sum_list (xs @ [x])\<bar> \<le> 2 ^ 53" using le s0 x0 by simp
    with i have "to_double (sum_list (xs @ [x])) = sum_list (xs @ [x])"
      by (rule to_double_Ints_exact)
    then show "dsum (xs @ [x]) = sum_list (xs @ [x])" unfolding dsum_snoc dadd_def e by simp
  next
    assume gt: "2 ^ 53 < sum_list (xs @ [x])"
    have "2 ^ 53 \<le> dsum xs + x"
    proof (cases "sum_list xs \<le> 2 ^ 53")
      case True
      then have "dsum xs = sum_list xs" using ih by blast
      then show ?thesis using gt by simp
    next
      case False
      then have "2 ^ 53 \<le> dsum xs" using ih by simp
      then show ?thesis using x0 by linarith
    qed
    then show "2 ^ 53 \<le> dsum (xs @ [x])" unfolding dsum_snoc dadd_def by (rule to_double_large)
  qed
qed

lemma dsum_Nats_le_iff:
  assumes "\<forall>x\<in>set xs. x \<in> \<nat>" and "W < 2 ^ 53"
  shows "dsum xs \<le> W \<longleftrightarrow> sum_list xs \<le> W"
proof (cases "sum_list xs \<le> 2 ^ 53")
  case True
  then have "dsum xs = sum_list xs" using dsum_Nats [OF assms(1)] by blast
  then show ?thesis by simp
next
  case False
  then have "2 ^ 53 \<le> dsum xs" using dsum_Nats [OF assms(1)] by simp
  then show ?thesis using False assms(2) by linarith
qed

section \<open>The aggregator and the filter\<close>

text \<open>Every item the constructor builds has a description and a positive weight.\<close>

lemma make_FoodItem_invariant:
  "make_FoodItem descr w c = Inr f \<Longrightarrow> description f \<noteq> [] \<and> 0 < weight f"
  by (auto simp: make_FoodItem_def split: if_splits)

lemma sum_loop_eq:
  "sum_loop foods tw tc
     = (foldl dadd tw (map weight foods), foldl dadd tc (map foodCalories foods))"
  by (induction foods arbitrary: tw tc) simp_all

lemma total_weight_of_eq: "total_weight_of foods = dsum (map weight foods)"
  by (simp add: total_weight_of_def sum_food_vector_def sum_loop_eq dsum_def)

lemma total_calories_of_eq: "total_calories_of foods = dsum (map foodCalories foods)"
  by (simp add: total_calories_of_def sum_food_vector_def sum_loop_eq dsum_def)

lemma total_weight_of_simps [simp]:
  "total_weight_of [] = 0"
  "total_weight_of (xs @ [x]) = dadd (total_weight_of xs) (weight x)"
  by (simp_all add: total_weight_of_eq)

lemma total_calories_of_simps [simp]:
  "total_calories_of [] = 0"
  "total_calories_of (xs @ [x]) = dadd (total_calories_of xs) (foodCalories x)"
  by (simp_all add: total_calories_of_eq)

lemma filter_loop_eq:
  "filter_loop source mn mx total_size acc =
     acc @ take (nat total_size - length acc)
             (filter (\<lambda>food. mn \<le> foodCalories food \<and> foodCalories food \<le> mx) source)"
proof (induction source arbitrary: acc)
  case Nil
  show ?case by simp
next
  case (Cons food rest)
  show ?case
  proof (cases "mn \<le> foodCalories food \<and> foodCalories food \<le> mx")
    case False
    then show ?thesis using Cons.IH [of acc] by auto
  next
    case match: True
    let ?P = "\<lambda>food. mn \<le> foodCalories food \<and> foodCalories food \<le> mx"
    have fm: "filter ?P (food # rest) = food # filter ?P rest"
      using match by simp
    show ?thesis
    proof (cases "int (length acc) < total_size")
      case True
      define d where "d = nat total_size - length (acc @ [food])"
      have k: "nat total_size - length acc = Suc d"
        using True unfolding d_def by simp
      have "filter_loop (food # rest) mn mx total_size acc =
              filter_loop rest mn mx total_size (acc @ [food])"
        using match True by simp
      also have "\<dots> = (acc @ [food]) @ take d (filter ?P rest)"
        unfolding d_def by (rule Cons.IH)
      also have "\<dots> = acc @ take (Suc d) (filter ?P (food # rest))"
        unfolding fm by simp
      finally show ?thesis unfolding k .
    next
      case False
      then have z: "nat total_size - length acc = 0" by linarith
      have "filter_loop (food # rest) mn mx total_size acc = acc"
        using match False by simp
      then show ?thesis unfolding z by simp
    qed
  qed
qed

text \<open>
  C6. For a positive \<open>max_count\<close>, \<open>filter_food_vector\<close> returns the first
  \<open>max_count\<close> items of the source (all of them when fewer match) whose calories lie in
  the closed range from \<open>min_calories\<close> to \<open>max_calories\<close>, in source order.
\<close>

theorem filter_food_vector_first_matches:
  "0 < max_count \<Longrightarrow>
   filter_food_vector source min_calories max_calories max_count =
     Some (take (nat max_count)
       (filter (\<lambda>food. min_calories \<le> foodCalories food \<and> foodCalories food \<le> max_calories)
          source))"
  by (simp add: filter_food_vector_def filter_loop_eq)

text \<open>The example of the specification: calories 5, 50, 10, 200, 15 with range 10 to 100, two items.\<close>

theorem filter_food_vector_example:
  "(0::int) < 2 \<and>
   filter_food_vector [item 1 5, item 1 50, item 1 10, item 1 200, item 1 15] 10 100 2 =
     Some [item 1 50, item 1 10]"
  using filter_food_vector_first_matches
    [of 2 "[item 1 5, item 1 50, item 1 10, item 1 200, item 1 15]" 10 100]
  by (simp add: item_def)

section \<open>The exhaustive search as a scan over candidates\<close>

lemma bit_test: "(drop_bit j (int b) AND 1 = 1) = bit b j"
  by (metis bit_iff_and_drop_bit_eq_1 bit_of_nat_iff_bit)

lemma sel_Suc: "j < length foods \<Longrightarrow> sel foods b (Suc j) = sel foods b j @ (if bit b j then [foods ! j] else [])"
  by (simp add: sel_def take_Suc_conv_app_nth nths_append)

lemma sel_0: "sel foods b 0 = []" by (simp add: sel_def)

lemma nths_cong_len: "(\<And>i. i < length xs \<Longrightarrow> i \<in> A \<longleftrightarrow> i \<in> B) \<Longrightarrow> nths xs A = nths xs B"
  unfolding nths_def
  by (rule arg_cong [where f = "map fst"], rule filter_cong) (auto dest: set_zip_rightD)

text \<open>The state after the first \<open>k\<close> passes of the inner loop for mask \<open>b\<close>.\<close>

lemma exh_body_step:
  assumes "j < length foods"
    and "CandidateFoodVector st = sel foods b j"
    and "candTotalWeight st = total_weight_of (sel foods b j)"
    and "candTotalCalories st = total_calories_of (sel foods b j)"
  shows "CandidateFoodVector (exh_body foods W (int b) j st) = sel foods b (Suc j)"
    and "candTotalWeight (exh_body foods W (int b) j st) = total_weight_of (sel foods b (Suc j))"
    and "candTotalCalories (exh_body foods W (int b) j st) = total_calories_of (sel foods b (Suc j))"
    and "(BestFoodVector (exh_body foods W (int b) j st), bestTotalCalries (exh_body foods W (int b) j st))
          = check_cand W (sel foods b (Suc j)) (BestFoodVector st, bestTotalCalries st)"
  using assms by (simp_all add: exh_body_def Let_def bit_test sel_Suc check_cand_def)

lemma exh_inner_prefix:
  assumes "k \<le> length foods"
    and "CandidateFoodVector st = []" and "candTotalWeight st = 0" and "candTotalCalories st = 0"
  shows "CandidateFoodVector (fold (exh_body foods W (int b)) [0..<k] st) = sel foods b k
       \<and> candTotalWeight (fold (exh_body foods W (int b)) [0..<k] st) = total_weight_of (sel foods b k)
       \<and> candTotalCalories (fold (exh_body foods W (int b)) [0..<k] st) = total_calories_of (sel foods b k)
       \<and> (BestFoodVector (fold (exh_body foods W (int b)) [0..<k] st),
           bestTotalCalries (fold (exh_body foods W (int b)) [0..<k] st))
          = fold (check_cand W) (map (sel foods b) [1..<Suc k]) (BestFoodVector st, bestTotalCalries st)"
  using assms(1)
proof (induction k)
  case 0
  then show ?case using assms(2-4) by (simp add: sel_0)
next
  case (Suc k)
  let ?s = "fold (exh_body foods W (int b)) [0..<k] st"
  have IH: "CandidateFoodVector ?s = sel foods b k" "candTotalWeight ?s = total_weight_of (sel foods b k)"
     "candTotalCalories ?s = total_calories_of (sel foods b k)"
     "(BestFoodVector ?s, bestTotalCalries ?s)
          = fold (check_cand W) (map (sel foods b) [1..<Suc k]) (BestFoodVector st, bestTotalCalries st)"
    using Suc by simp_all
  have k: "k < length foods" using Suc.prems by simp
  have f: "fold (exh_body foods W (int b)) [0..<Suc k] st = exh_body foods W (int b) k ?s"
    by simp
  have u: "map (sel foods b) [1..<Suc (Suc k)] = map (sel foods b) [1..<Suc k] @ [sel foods b (Suc k)]"
    by simp
  show ?case
    unfolding f u fold_append comp_apply
    using exh_body_step [OF k IH(1) IH(2) IH(3), of W] IH(4) by simp
qed

lemma exh_inner_best:
  "(BestFoodVector (exh_inner foods W (int b) st), bestTotalCalries (exh_inner foods W (int b) st))
     = fold (check_cand W) (map (sel foods b) [1..<Suc (length foods)]) (BestFoodVector st, bestTotalCalries st)"
  unfolding exh_inner_def
  using exh_inner_prefix [of "length foods" foods
      "st\<lparr>CandidateFoodVector := [], candTotalWeight := 0, candTotalCalories := 0\<rparr>" W b]
  by simp

lemma exh_outer_best:
  "(BestFoodVector (exh_outer foods W (int B) st), bestTotalCalries (exh_outer foods W (int B) st))
     = fold (check_cand W) (exh_cands foods B) (BestFoodVector st, bestTotalCalries st)"
proof (induction B)
  case 0
  show ?case by (simp add: exh_outer_def exh_cands_def)
next
  case (Suc B)
  have "exh_outer foods W (int (Suc B)) st = exh_inner foods W (int B) (exh_outer foods W (int B) st)"
    by (simp add: exh_outer_def del: of_nat_Suc)
  moreover have "exh_cands foods (Suc B) = exh_cands foods B @ map (sel foods B) [1..<Suc (length foods)]"
    by (simp add: exh_cands_def)
  ultimately show ?case
    using Suc exh_inner_best [of foods W B "exh_outer foods W (int B) st"] by simp
qed

lemma exhaustive_returns:
  assumes "length foods < 31"
  shows "exhaustive_max_calories foods W =
           Inr (fst (fold (check_cand W) (exh_cands foods (2 ^ length foods)) ([], 0)))"
proof -
  define B :: nat where "B = 2 ^ length foods"
  have "B < 2 ^ 31"
    unfolding B_def using assms by (intro power_strict_increasing) simp_all
  then have "int B < int (2 ^ 31)" by (simp only: of_nat_less_iff)
  then have p: "int B < 2 ^ 31" by simp
  have "(2::real) ^ length foods = real_of_int (int B)" by (simp add: B_def)
  then have t: "trunc (2 ^ length foods) = int B"
    unfolding trunc_def by (simp only: floor_of_int) simp
  have d: "double_to_int (2 ^ length foods) = Some (int B)"
    unfolding double_to_int_def t using p by simp
  let ?st0 = "\<lparr>BestFoodVector = [], bestTotalCalries = 0, CandidateFoodVector = foods,
                candTotalWeight = 0, candTotalCalories = 0\<rparr>"
  have "(BestFoodVector (exh_outer foods W (int B) ?st0), bestTotalCalries (exh_outer foods W (int B) ?st0))
          = fold (check_cand W) (exh_cands foods B) ([], 0)"
    using exh_outer_best [of foods W B ?st0] by simp
  then have e: "BestFoodVector (exh_outer foods W (int B) ?st0)
          = fst (fold (check_cand W) (exh_cands foods B) ([], 0))"
    by (metis fst_conv)
  show ?thesis
    unfolding exhaustive_max_calories_def d B_def [symmetric]
    using assms e by simp
qed



lemma fold_check_cand:
  assumes "fold (check_cand W) cs (B, bc) = (B', bc')" and "bc = total_calories_of B"
  shows "bc' = total_calories_of B' \<and> bc \<le> bc'
       \<and> (B' = B \<or> (B' \<in> set cs \<and> total_weight_of B' \<le> W \<and> bc < total_calories_of B'))
       \<and> (\<forall>c\<in>set cs. total_weight_of c \<le> W \<longrightarrow> total_calories_of c \<le> bc')"
  using assms
proof (induction cs arbitrary: B bc)
  case Nil
  then show ?case by auto
next
  case (Cons c cs)
  obtain B1 bc1 where s1: "check_cand W c (B, bc) = (B1, bc1)" by (cases "check_cand W c (B, bc)")
  have r: "fold (check_cand W) cs (B1, bc1) = (B', bc')" using Cons.prems(1) s1 by simp
  have c1: "bc1 = total_calories_of B1" "bc \<le> bc1" "B1 = B \<or> (B1 = c \<and> total_weight_of c \<le> W \<and> bc < total_calories_of c)"
     "total_weight_of c \<le> W \<longrightarrow> total_calories_of c \<le> bc1"
    using s1 Cons.prems(2) by (auto simp: check_cand_def split: if_splits)
  from Cons.IH [OF r c1(1)]
  have ih: "bc' = total_calories_of B'" "bc1 \<le> bc'"
      "B' = B1 \<or> (B' \<in> set cs \<and> total_weight_of B' \<le> W \<and> bc1 < total_calories_of B')"
      "\<forall>c\<in>set cs. total_weight_of c \<le> W \<longrightarrow> total_calories_of c \<le> bc'"
    by blast+
  show ?case
  proof (intro conjI)
    show "bc' = total_calories_of B'" by (rule ih(1))
    show "bc \<le> bc'" using c1(2) ih(2) by linarith
    show "B' = B \<or> (B' \<in> set (c # cs) \<and> total_weight_of B' \<le> W \<and> bc < total_calories_of B')"
      using c1(2,3) ih(3) by auto
    show "\<forall>c\<in>set (c # cs). total_weight_of c \<le> W \<longrightarrow> total_calories_of c \<le> bc'"
      using c1(4) ih(2,4) by auto
  qed
qed


lemma exh_cands_sel:
  assumes "c \<in> set (exh_cands foods B)"
  shows "\<exists>b k. c = sel foods b k"
proof -
  from assms obtain l where l: "l \<in> set (map (\<lambda>b. map (sel foods b) [1..<Suc (length foods)]) [0..<B])"
      and c: "c \<in> set l"
    unfolding exh_cands_def set_concat by blast
  from l obtain b where "l = map (sel foods b) [1..<Suc (length foods)]"
    unfolding set_map by blast
  with c have "c \<in> sel foods b ` set [1..<Suc (length foods)]"
    by (simp only: set_map)
  then show ?thesis by blast
qed

lemma sel_in_exh_cands:
  assumes "b < B" "1 \<le> k" "k \<le> length foods"
  shows "sel foods b k \<in> set (exh_cands foods B)"
proof -
  have "k \<in> set [1..<Suc (length foods)]" using assms(2,3) by (simp only: set_upt) simp
  then have 1: "sel foods b k \<in> set (map (sel foods b) [1..<Suc (length foods)])"
    by (simp only: set_map) (rule imageI)
  have "b \<in> set [0..<B]" using assms(1) by simp
  then have 2: "map (sel foods b) [1..<Suc (length foods)]
      \<in> set (map (\<lambda>b. map (sel foods b) [1..<Suc (length foods)]) [0..<B])"
    by (simp only: set_map) (rule imageI)
  show ?thesis unfolding exh_cands_def set_concat using 1 2 by blast
qed

lemma sel_subseq: "subseq (sel foods b k) foods"
proof -
  have "subseq (sel foods b k) (take k foods)"
    unfolding sel_def subseq_conv_nths by blast
  moreover have "subseq (take k foods) foods"
    using subseq_rev_drop_many [of "take k foods" "take k foods" "drop k foods"] by simp
  ultimately show ?thesis by (rule subseq_order.order_trans)
qed

lemma subseq_is_sel:
  assumes "subseq s foods"
  shows "\<exists>b < 2 ^ length foods. s = sel foods b (length foods)"
proof -
  obtain N where N: "s = nths foods N" using assms unfolding subseq_conv_nths by blast
  define b :: nat where "b = horner_sum of_bool 2 (map (\<lambda>j. j \<in> N) [0..<length foods])"
  have bit: "bit b j \<longleftrightarrow> j < length foods \<and> j \<in> N" for j
    unfolding b_def by (simp add: bit_horner_sum_bit_iff cong: conj_cong)
  have "take_bit (length foods) b = b"
    unfolding b_def by (simp add: take_bit_horner_sum_bit_eq)
  then have "b < 2 ^ length foods"
    by (metis take_bit_nat_less_exp)
  moreover have "s = sel foods b (length foods)"
    unfolding N sel_def by (simp, rule nths_cong_len) (simp add: bit)
  ultimately show ?thesis by blast
qed

lemma exhaustive_Inr_length:
  assumes "exhaustive_max_calories foods W = Inr best"
  shows "length foods < 31"
proof (rule ccontr)
  assume "\<not> length foods < 31"
  then have "(2::nat) ^ 31 \<le> 2 ^ length foods"
    by (intro power_increasing) simp_all
  then have "int (2 ^ 31) \<le> int (2 ^ length foods)" by (simp only: of_nat_le_iff)
  moreover define B :: nat where "B = 2 ^ length foods"
  ultimately have p: "2 ^ 31 \<le> int B" by simp
  have "(2::real) ^ length foods = real_of_int (int B)" by (simp add: B_def)
  then have t: "trunc (2 ^ length foods) = int B"
    unfolding trunc_def by (simp only: floor_of_int) simp
  have "double_to_int (2 ^ length foods) = None"
    unfolding double_to_int_def t using p by simp
  then show False using assms unfolding exhaustive_max_calories_def by (simp split: if_splits)
qed

lemma exhaustive_best_props:
  assumes "exhaustive_max_calories foods W = Inr best"
  shows "0 \<le> total_calories_of best"
    and "best = [] \<or> (total_weight_of best \<le> W \<and> 0 < total_calories_of best)"
    and "subseq best foods"
    and "\<And>s. subseq s foods \<Longrightarrow> total_weight_of s \<le> W \<Longrightarrow> total_calories_of s \<le> total_calories_of best"
proof -
  let ?n = "length foods"
  let ?cs = "exh_cands foods (2 ^ ?n)"
  have n: "?n < 31" using assms by (rule exhaustive_Inr_length)
  obtain B' bc' where f: "fold (check_cand W) ?cs ([], 0) = (B', bc')"
    by (cases "fold (check_cand W) ?cs ([], 0)")
  have best: "best = B'" using assms exhaustive_returns [OF n, of W] f by simp
  have q: "(0::real) = total_calories_of []" by simp
  from fold_check_cand [OF f q] have
    p: "bc' = total_calories_of B'" "0 \<le> bc'" "B' = [] \<or> (B' \<in> set ?cs \<and> total_weight_of B' \<le> W \<and> 0 < total_calories_of B')"
       "\<forall>c\<in>set ?cs. total_weight_of c \<le> W \<longrightarrow> total_calories_of c \<le> bc'"
    by blast+
  show "0 \<le> total_calories_of best" using p(1,2) best by simp
  show "best = [] \<or> (total_weight_of best \<le> W \<and> 0 < total_calories_of best)" using p(3) best by blast
  show "subseq best foods"
  proof (cases "B' = []")
    case True
    then show ?thesis using best by simp
  next
    case False
    then have "B' \<in> set ?cs" using p(3) by blast
    then obtain b k where "B' = sel foods b k" using exh_cands_sel by blast
    then show ?thesis using best sel_subseq by simp
  qed
  show "total_calories_of s \<le> total_calories_of best" if s: "subseq s foods" and w: "total_weight_of s \<le> W" for s
  proof (cases "?n = 0")
    case True
    then have "s = []" using s by simp
    then show ?thesis using p(1,2) best by simp
  next
    case False
    obtain b where b: "b < 2 ^ ?n" "s = sel foods b ?n" using subseq_is_sel [OF s] by blast
    have "1 \<le> ?n" using False by (cases foods) simp_all
    then have "s \<in> set ?cs" unfolding b(2) using b(1) by (intro sel_in_exh_cands) simp_all
    then show ?thesis using p(1,4) w best by blast
  qed
qed

section \<open>Properties of the exhaustive search\<close>

lemma subseq_all:
  assumes "subseq s foods" and "\<forall>f\<in>set foods. P f"
  shows "\<forall>f\<in>set s. P f"
proof
  fix f
  assume "f \<in> set s"
  with assms(1) obtain y where "y \<in> set foods" and "f = y"
    by (rule list_emb_set)
  then show "P f" using assms(2) by simp
qed


lemma total_weight_nonneg:
  assumes "\<forall>f\<in>set s. 0 \<le> weight f"
  shows "0 \<le> total_weight_of s"
proof -
  have "\<forall>x\<in>set (map weight s). 0 \<le> x" using assms by simp
  then show ?thesis unfolding total_weight_of_eq by (rule dsum_nonneg)
qed




section \<open>The table and the traceback of the dynamic program\<close>

lemma trunc_nonneg: "0 \<le> x \<Longrightarrow> trunc x = \<lfloor>x\<rfloor>"
  by (simp add: trunc_def)

lemma trunc_of_nat: "trunc (real n) = int n"
  by (simp add: trunc_def)

text \<open>
  The rounded difference \<open>j - w\<close> of a column and a weight that fits it lies between 0 and
  \<open>j\<close>, so the index it is truncated to is a column of the table.
\<close>

lemma dsub_index_bounds:
  assumes "0 \<le> w" and "w \<le> real j" and "j < 2 ^ 31"
  shows "0 \<le> trunc (dsub (real j) w)" and "nat (trunc (dsub (real j) w)) \<le> j"
proof -
  define x where "x = real j - w"
  have x0: "real_of_int 0 \<le> x" unfolding x_def using assms(2) by simp
  have xj: "x \<le> real_of_int (int j)" unfolding x_def using assms(1) by simp
  have "real j < 2 ^ 31" using assms(3) by (metis of_nat_less_iff of_nat_numeral of_nat_power)
  then have "real j < 2 ^ 53" by simp
  then have ab: "\<bar>x\<bar> < 2 ^ 53" using x0 xj by simp
  have d0: "0 \<le> to_double x" using to_double_between(1) [OF ab x0 xj] by simp
  have dj: "to_double x \<le> real j" using to_double_between(2) [OF ab x0 xj] by simp
  have t: "trunc (dsub (real j) w) = \<lfloor>to_double x\<rfloor>"
    unfolding dsub_def x_def [symmetric] using d0 by (rule trunc_nonneg)
  show "0 \<le> trunc (dsub (real j) w)" unfolding t using d0 by simp
  have "\<lfloor>to_double x\<rfloor> \<le> \<lfloor>real j\<rfloor>" using dj by (rule floor_mono)
  then have "\<lfloor>to_double x\<rfloor> \<le> int j" by simp
  then show "nat (trunc (dsub (real j) w)) \<le> j" unfolding t by linarith
qed

lemma length_table_row [simp]: "length (table_row foods n k) = n"
  by (simp add: table_row_def)

lemma nth_table_row [simp]: "j < n \<Longrightarrow> table_row foods n k ! j = dp_entry foods k j"
  by (simp add: table_row_def)

lemma vec_at_in_range: "j < length xs \<Longrightarrow> vec_at xs (int j) = Inr (xs ! j)"
  by (simp add: vec_at_def)

lemma dp_cell_eq:
  assumes "0 \<le> weight (foods ! k)" and "j < n" and "n \<le> 2 ^ 31"
  shows "dp_cell (foods ! k) (table_row foods n k) (int j) = Inr (dp_entry foods (Suc k) j)"
proof (cases "weight (foods ! k) \<le> real j")
  case False
  then show ?thesis using assms(2) by (simp add: dp_cell_def vec_at_in_range)
next
  case True
  have j31: "j < 2 ^ 31" using assms(2,3) by linarith
  define i where "i = nat (trunc (dsub (real j) (weight (foods ! k))))"
  have ti: "trunc (dsub (real j) (weight (foods ! k))) = int i"
    unfolding i_def using dsub_index_bounds(1) [OF assms(1) True j31] by simp
  have "i < n"
    unfolding i_def using dsub_index_bounds(2) [OF assms(1) True j31] assms(2) by linarith
  then have a: "vec_at (table_row foods n k) (trunc (dsub (real j) (weight (foods ! k))))
                  = Inr (dp_entry foods k i)"
    unfolding ti by (subst vec_at_in_range) simp_all
  have b: "vec_at (table_row foods n k) (int j) = Inr (dp_entry foods k j)"
    using assms(2) by (subst vec_at_in_range) simp_all
  show ?thesis using True by (simp add: dp_cell_def a b i_def)
qed

lemma dp_row_eq:
  assumes "0 \<le> weight (foods ! k)" and "n \<le> 2 ^ 31" and "\<forall>j\<in>set js. j < n"
  shows "dp_row (foods ! k) (table_row foods n k) (map int js) Temp
           = Inr (Temp @ map (dp_entry foods (Suc k)) js)"
  using assms(3)
proof (induction js arbitrary: Temp)
  case Nil
  show ?case by simp
next
  case (Cons j js)
  have "j < n" using Cons.prems by simp
  with assms(1)
  have c: "dp_cell (foods ! k) (table_row foods n k) (int j) = Inr (dp_entry foods (Suc k) j)"
    using assms(2) by (rule dp_cell_eq)
  have "dp_row (foods ! k) (table_row foods n k) (map int (j # js)) Temp
          = dp_row (foods ! k) (table_row foods n k) (map int js) (Temp @ [dp_entry foods (Suc k) j])"
    by (simp add: c del: dp_entry.simps)
  also have "\<dots> = Inr ((Temp @ [dp_entry foods (Suc k) j]) @ map (dp_entry foods (Suc k)) js)"
    using Cons.prems by (intro Cons.IH) simp
  finally show ?case by (simp del: dp_entry.simps)
qed

lemma dp_row_table_row:
  assumes "0 \<le> weight (foods ! k)" and "n \<le> 2 ^ 31"
  shows "dp_row (foods ! k) (table_row foods n k) (map int [0..<n]) [] = Inr (table_row foods n (Suc k))"
  using dp_row_eq [OF assms, of "[0..<n]" "[]"] by (simp add: table_row_def del: dp_entry.simps)

lemma dp_rows_eq:
  assumes "\<forall>f\<in>set foods. 0 \<le> weight f" and "n \<le> 2 ^ 31" and "a + d \<le> length foods"
  shows "dp_rows foods (map int [0..<n]) [a..<a + d] (map (table_row foods n) [0..<Suc a])
           = Inr (map (table_row foods n) [0..<Suc (a + d)])"
  using assms(3)
proof (induction d arbitrary: a)
  case 0
  show ?case by simp
next
  case (Suc d)
  have a: "a < length foods" using Suc.prems by simp
  then have w: "0 \<le> weight (foods ! a)" using assms(1) by simp
  have u: "[a..<a + Suc d] = a # [Suc a..<Suc a + d]" by (simp add: upt_conv_Cons)
  have v: "vec_at (map (table_row foods n) [0..<Suc a]) (int a) = Inr (table_row foods n a)"
    by (subst vec_at_in_range) (simp_all add: nth_append del: upt_Suc)
  have e: "map (table_row foods n) [0..<Suc a] @ [table_row foods n (Suc a)]
             = map (table_row foods n) [0..<Suc (Suc a)]" by simp
  have "dp_rows foods (map int [0..<n]) [a..<a + Suc d] (map (table_row foods n) [0..<Suc a])
      = dp_rows foods (map int [0..<n]) [Suc a..<Suc a + d] (map (table_row foods n) [0..<Suc (Suc a)])"
    unfolding u dp_rows.simps v sum.case dp_row_table_row [OF w assms(2)] e ..
  also have "\<dots> = Inr (map (table_row foods n) [0..<Suc (Suc a + d)])"
    using Suc.prems by (intro Suc.IH) simp
  finally show ?case by simp
qed

lemma capacity_columns:
  assumes "(W::real) < 2 ^ 31 - 1"
  shows "nat (\<lfloor>W\<rfloor> + 1) \<le> 2 ^ 31" and "0 \<le> W \<Longrightarrow> nat \<lfloor>W\<rfloor> < nat (\<lfloor>W\<rfloor> + 1)"
proof -
  have "\<lfloor>W\<rfloor> \<le> \<lfloor>(2::real) ^ 31 - 1\<rfloor>" using assms by (intro floor_mono) simp
  then have 1: "\<lfloor>W\<rfloor> + 1 \<le> 2 ^ 31" by simp
  have "nat (\<lfloor>W\<rfloor> + 1) \<le> nat (2 ^ 31)" using 1 by (rule nat_mono)
  then show "nat (\<lfloor>W\<rfloor> + 1) \<le> 2 ^ 31" by simp
  assume "0 \<le> W"
  then have 0: "0 \<le> \<lfloor>W\<rfloor>" by simp
  show "nat \<lfloor>W\<rfloor> < nat (\<lfloor>W\<rfloor> + 1)" using 0 by linarith
qed

text \<open>The table that the loops build holds the entries \<open>dp_entry\<close>.\<close>

lemma dp_table_eq:
  assumes "\<forall>f\<in>set foods. 0 \<le> weight f" and "W < 2 ^ 31 - 1"
  shows "dp_table foods W
           = Inr (map (table_row foods (nat (\<lfloor>W\<rfloor> + 1))) [0..<Suc (length foods)])"
proof -
  let ?n = "nat (\<lfloor>W\<rfloor> + 1)"
  have n: "?n \<le> 2 ^ 31" using assms(2) by (rule capacity_columns(1))
  have c: "dp_columns W = map int [0..<?n]" by (simp add: dp_columns_def)
  have z: "map (\<lambda>init. 0) (map int [0..<?n]) = table_row foods ?n 0"
    by (simp add: table_row_def)
  have "dp_rows foods (map int [0..<?n]) [0..<0 + length foods] (map (table_row foods ?n) [0..<Suc 0])
           = Inr (map (table_row foods ?n) [0..<Suc (0 + length foods)])"
    using assms(1) n by (rule dp_rows_eq) simp
  then show ?thesis
    unfolding dp_table_def c z using assms(2) by simp
qed

lemma vec_at2_table:
  assumes "i \<le> N" and "j < n"
  shows "vec_at2 (map (table_row foods n) [0..<Suc N]) (int i) (int j) = Inr (dp_entry foods i j)"
proof -
  have "i < length (map (table_row foods n) [0..<Suc N])" using assms(1) by simp
  then have "vec_at (map (table_row foods n) [0..<Suc N]) (int i)
               = Inr (map (table_row foods n) [0..<Suc N] ! i)"
    by (rule vec_at_in_range)
  also have "map (table_row foods n) [0..<Suc N] ! i = table_row foods n i"
    using assms(1) by (subst nth_map) (simp_all del: upt_Suc)
  finally have r: "vec_at (map (table_row foods n) [0..<Suc N]) (int i) = Inr (table_row foods n i)" .
  have c: "vec_at (table_row foods n i) (int j) = Inr (dp_entry foods i j)"
    using assms(2) by (subst vec_at_in_range) simp_all
  show ?thesis unfolding vec_at2_def r sum.case c ..
qed

lemma dp_entry_changed:
  assumes "dp_entry foods (Suc i) j \<noteq> dp_entry foods i j"
  shows "weight (foods ! i) \<le> real j"
    and "dp_entry foods (Suc i) j
           = dadd (foodCalories (foods ! i))
               (dp_entry foods i (nat (trunc (dsub (real j) (weight (foods ! i))))))"
  using assms by (simp_all add: max_def split: if_splits)

text \<open>The traceback returns the items of \<open>trace_items\<close>.\<close>

lemma traceback_eq:
  assumes "\<forall>f\<in>set foods. 0 \<le> weight f" and "n \<le> 2 ^ 31"
  shows "i \<le> length foods \<Longrightarrow> j < n \<Longrightarrow>
     traceback (map (table_row foods n) [0..<Suc (length foods)]) foods i (int j) best
       = Inr (best @ trace_items foods i j)"
proof (induction i arbitrary: j best)
  case 0
  show ?case by simp
next
  case (Suc i)
  let ?T = "map (table_row foods n) [0..<Suc (length foods)]"
  let ?w = "weight (foods ! i)"
  have i: "i < length foods" "i \<le> length foods" using Suc.prems(1) by simp_all
  have a: "vec_at2 ?T (int (Suc i)) (int j) = Inr (dp_entry foods (Suc i) j)"
    using Suc.prems by (rule vec_at2_table)
  have b: "vec_at2 ?T (int i) (int j) = Inr (dp_entry foods i j)"
    using i(2) Suc.prems(2) by (rule vec_at2_table)
  show ?case
  proof (cases "dp_entry foods (Suc i) j = dp_entry foods i j")
    case True
    have "traceback ?T foods (Suc i) (int j) best = traceback ?T foods i (int j) best"
      unfolding traceback.simps a b sum.case using True by (simp del: dp_entry.simps)
    also have "\<dots> = Inr (best @ trace_items foods i j)"
      using i(2) Suc.prems(2) by (rule Suc.IH)
    also have "trace_items foods i j = trace_items foods (Suc i) j"
      using True by (simp del: dp_entry.simps)
    finally show ?thesis .
  next
    case False
    note ch = dp_entry_changed [OF False]
    have w0: "0 \<le> ?w" using assms(1) i(1) by simp
    have j31: "j < 2 ^ 31" using Suc.prems(2) assms(2) by linarith
    define j' where "j' = nat (trunc (dsub (real j) ?w))"
    have tj: "trunc (dsub (real j) ?w) = int j'"
      unfolding j'_def using dsub_index_bounds(1) [OF w0 ch(1) j31] by simp
    have j'j: "j' \<le> j" unfolding j'_def by (rule dsub_index_bounds(2) [OF w0 ch(1) j31])
    have j'n: "j' < n" using j'j Suc.prems(2) by linarith
    have "j' < 2 ^ 31" using j'n assms(2) by linarith
    then have "int j' < int (2 ^ 31)" by (simp only: of_nat_less_iff)
    then have "int j' < 2 ^ 31" by simp
    then have d: "double_to_int (dsub (real_of_int (int j)) ?w) = Some (int j')"
      unfolding double_to_int_def by (simp add: tj)
    have "traceback ?T foods (Suc i) (int j) best = traceback ?T foods i (int j') (best @ [foods ! i])"
      unfolding traceback.simps a b sum.case d using False by (simp del: dp_entry.simps)
    also have "\<dots> = Inr ((best @ [foods ! i]) @ trace_items foods i j')"
      using i(2) j'n by (rule Suc.IH)
    also have "(best @ [foods ! i]) @ trace_items foods i j' = best @ trace_items foods (Suc i) j"
      using False unfolding j'_def by (simp del: dp_entry.simps)
    finally show ?thesis .
  qed
qed

lemma traced_skip:
  assumes "traced foods i xs" and "i < length foods"
  shows "traced foods (Suc i) xs"
proof -
  obtain idxs where idxs: "xs = map ((!) foods) idxs" "sorted_wrt (>) idxs" "\<forall>x\<in>set idxs. x < i"
    using assms(1) unfolding traced_def by blast
  have 1: "\<forall>x\<in>set idxs. x < Suc i" using idxs(3) by auto
  have "subseq (rev xs) (take i foods @ [foods ! i])"
    using assms(1) unfolding traced_def by (intro subseq_rev_drop_many) simp
  then have 2: "subseq (rev xs) (take (Suc i) foods)"
    using assms(2) by (simp add: take_Suc_conv_app_nth)
  have e: "\<exists>idxs'. xs = map ((!) foods) idxs' \<and> sorted_wrt (>) idxs'
             \<and> (\<forall>x\<in>set idxs'. x < Suc i)"
    using idxs(1,2) 1 by (intro exI [where x = idxs] conjI)
  show ?thesis unfolding traced_def using e 2 by (intro conjI)
qed

lemma traced_take:
  assumes "traced foods i xs" and "i < length foods"
  shows "traced foods (Suc i) (foods ! i # xs)"
proof -
  obtain idxs where idxs: "xs = map ((!) foods) idxs" "sorted_wrt (>) idxs" "\<forall>x\<in>set idxs. x < i"
    using assms(1) unfolding traced_def by blast
  have 1: "foods ! i # xs = map ((!) foods) (i # idxs)" using idxs(1) by simp
  have 2: "sorted_wrt (>) (i # idxs)" using idxs(2,3) by simp
  have 3: "\<forall>x\<in>set (i # idxs). x < Suc i" using idxs(3) by auto
  have "subseq (rev xs @ [foods ! i]) (take i foods @ [foods ! i])"
    using assms(1) unfolding traced_def by (intro list_emb_append_mono) simp_all
  then have 4: "subseq (rev (foods ! i # xs)) (take (Suc i) foods)"
    using assms(2) by (simp add: take_Suc_conv_app_nth)
  have e: "\<exists>idxs'. foods ! i # xs = map ((!) foods) idxs' \<and> sorted_wrt (>) idxs'
             \<and> (\<forall>x\<in>set idxs'. x < Suc i)"
    using 1 2 3 by (intro exI [where x = "i # idxs"] conjI)
  show ?thesis unfolding traced_def using e 4 by (intro conjI)
qed

lemma trace_items_traced:
  "i \<le> length foods \<Longrightarrow> traced foods i (trace_items foods i j)"
proof (induction i arbitrary: j)
  case 0
  show ?case unfolding traced_def by simp
next
  case (Suc i)
  have i: "i < length foods" "i \<le> length foods" using Suc.prems by simp_all
  show ?case
  proof (cases "dp_entry foods (Suc i) j = dp_entry foods i j")
    case True
    have "traced foods (Suc i) (trace_items foods i j)"
      using Suc.IH [OF i(2)] i(1) by (rule traced_skip)
    then show ?thesis using True by (simp del: dp_entry.simps)
  next
    case False
    have "traced foods (Suc i)
            (foods ! i # trace_items foods i (nat (trunc (dsub (real j) (weight (foods ! i))))))"
      using Suc.IH [OF i(2)] i(1) by (rule traced_take)
    then show ?thesis using False by (simp del: dp_entry.simps)
  qed
qed

lemma double_to_int_capacity:
  assumes "0 \<le> W" and "W < 2 ^ 31 - 1"
  shows "double_to_int W = Some (int (nat \<lfloor>W\<rfloor>))"
proof -
  have t: "trunc W = \<lfloor>W\<rfloor>" using assms(1) by (rule trunc_nonneg)
  have 0: "0 \<le> \<lfloor>W\<rfloor>" using assms(1) by simp
  have "\<lfloor>W\<rfloor> \<le> \<lfloor>(2::real) ^ 31 - 1\<rfloor>" using assms(2) by (intro floor_mono) simp
  then have 1: "\<lfloor>W\<rfloor> < 2 ^ 31" by simp
  show ?thesis unfolding double_to_int_def t using 0 1 by simp
qed

text \<open>
  For a capacity from 0 up to \<open>INT_MAX - 1\<close> the dynamic program returns, and what it returns
  are the items traced from the last row and the column of the capacity.
\<close>

lemma dynamic_returns:
  assumes "\<forall>f\<in>set foods. 0 \<le> weight f" and "0 \<le> W" and "W < 2 ^ 31 - 1"
  shows "dynamic_max_calories foods W = Inr (trace_items foods (length foods) (nat \<lfloor>W\<rfloor>))"
proof -
  let ?n = "nat (\<lfloor>W\<rfloor> + 1)"
  let ?T = "map (table_row foods ?n) [0..<Suc (length foods)]"
  have T: "dp_table foods W = Inr ?T" using assms(1,3) by (rule dp_table_eq)
  have d: "double_to_int W = Some (int (nat \<lfloor>W\<rfloor>))"
    using assms(2,3) by (rule double_to_int_capacity)
  have x: "traceback ?T foods (length foods) (int (nat \<lfloor>W\<rfloor>)) []
             = Inr ([] @ trace_items foods (length foods) (nat \<lfloor>W\<rfloor>))"
    using assms(1) capacity_columns(1) [OF assms(3)] order_refl
      capacity_columns(2) [OF assms(3) assms(2)] by (rule traceback_eq)
  show ?thesis
    unfolding dynamic_max_calories_def T sum.case d option.case x by simp
qed

lemma dynamic_negative_capacity:
  assumes "\<forall>f\<in>set foods. 0 \<le> weight f" and "W < 0"
    and "dynamic_max_calories foods W = Inr best"
  shows "foods = []" and "best = []"
proof -
  have f: "\<lfloor>W\<rfloor> < 0" using assms(2) by (simp only: floor_less_zero)
  then have n: "nat (\<lfloor>W\<rfloor> + 1) = 0" by linarith
  let ?T = "map (table_row foods 0) [0..<Suc (length foods)]"
  have "W < 2 ^ 31 - 1" using assms(2) by simp
  with assms(1) have "dp_table foods W = Inr (map (table_row foods (nat (\<lfloor>W\<rfloor> + 1))) [0..<Suc (length foods)])"
    by (rule dp_table_eq)
  then have T: "dp_table foods W = Inr ?T" unfolding n .
  show e: "foods = []"
  proof (rule ccontr)
    assume "foods \<noteq> []"
    then obtain i where i: "length foods = Suc i" by (cases foods) simp_all
    have "Suc i < length ?T" using i by simp
    then have "vec_at ?T (int (Suc i)) = Inr (?T ! Suc i)" by (rule vec_at_in_range)
    also have "?T ! Suc i = table_row foods 0 (Suc i)"
      using i by (subst nth_map) (simp_all del: upt_Suc)
    also have "\<dots> = []" by (simp add: table_row_def)
    finally have "vec_at2 ?T (int (Suc i)) step = Inl OutOfRange" for step
      unfolding vec_at2_def by (simp add: vec_at_def)
    then have "traceback ?T foods (Suc i) step [] = Inl OutOfRange" for step
      unfolding traceback.simps by simp
    then have "\<exists>e. dynamic_max_calories foods W = Inl e"
      unfolding dynamic_max_calories_def T i by (simp split: option.split)
    then show False using assms(3) by auto
  qed
  have "dynamic_max_calories [] W = Inr [] \<or> (\<exists>e. dynamic_max_calories [] W = Inl e)"
    unfolding dynamic_max_calories_def by (simp split: sum.split option.split)
  then show "best = []" using assms(3) unfolding e by auto
qed

lemma dynamic_Inr_bound:
  assumes "dynamic_max_calories foods W = Inr best"
  shows "W < 2 ^ 31 - 1"
proof (rule ccontr)
  assume "\<not> W < 2 ^ 31 - 1"
  then have "dp_table foods W = Inl IntOverflow" unfolding dp_table_def by simp
  then show False using assms unfolding dynamic_max_calories_def by simp
qed

lemma dynamic_Inr_trace:
  assumes "\<forall>f\<in>set foods. 0 \<le> weight f" and "0 \<le> W"
    and "dynamic_max_calories foods W = Inr best"
  shows "best = trace_items foods (length foods) (nat \<lfloor>W\<rfloor>)"
  using dynamic_returns [OF assms(1,2) dynamic_Inr_bound [OF assms(3)]] assms(3) by simp

section \<open>Catalogs on which the arithmetic is exact\<close>

lemma subseq_singleton_cases:
  assumes "subseq zs [x]"
  shows "zs = [] \<or> zs = [x]"
  by (metis assms neq_Nil_conv list_emb_Cons_Nil subseq_Cons2_iff list_emb_mono)

lemma subseq_snoc_cases:
  assumes "subseq s (xs @ [x])"
  shows "subseq s xs \<or> (\<exists>s'. s = s' @ [x] \<and> subseq s' xs)"
proof -
  from assms obtain zs1 zs2 where z: "s = zs1 @ zs2" "subseq zs1 xs" "subseq zs2 [x]"
    by (rule subseq_appendE)
  from subseq_singleton_cases [OF z(3)] show ?thesis
  proof
    assume "zs2 = []" then show ?thesis using z by simp
  next
    assume "zs2 = [x]" then show ?thesis using z by blast
  qed
qed

lemma subseq_take_imp: "subseq s (take k foods) \<Longrightarrow> subseq s foods"
  using subseq_rev_drop_many [of s "take k foods" "drop k foods"] by simp

lemma Nats_real_obtain:
  assumes "(x::real) \<in> \<nat>"
  obtains n :: nat where "x = real n"
  using assms unfolding Nats_def by blast

lemma subseq_sum_list_le:
  assumes "subseq xs ys" and "\<forall>y\<in>set ys. (0::real) \<le> y"
  shows "sum_list xs \<le> sum_list ys"
  using assms
proof (induction rule: list_emb.induct)
  case (list_emb_Nil ys)
  then show ?case by (simp add: sum_list_nonneg_real)
next
  case (list_emb_Cons xs ys y)
  then show ?case by simp
next
  case (list_emb_Cons2 x y xs ys)
  then show ?case by simp
qed

lemma subseq_abs_calories:
  assumes "subseq s foods"
  shows "sum_list (map (\<lambda>f. \<bar>foodCalories f\<bar>) s) \<le> sum_list (map (\<lambda>f. \<bar>foodCalories f\<bar>) foods)"
proof -
  have "subseq (map (\<lambda>f. \<bar>foodCalories f\<bar>) s) (map (\<lambda>f. \<bar>foodCalories f\<bar>) foods)"
    using assms by (rule subseq_map)
  moreover have "\<forall>y\<in>set (map (\<lambda>f. \<bar>foodCalories f\<bar>) foods). 0 \<le> y" by simp
  ultimately show ?thesis by (rule subseq_sum_list_le)
qed

lemma integral_catalog_subseq:
  assumes "integral_catalog foods" and "subseq s foods"
  shows "integral_catalog s"
proof -
  have a: "\<forall>f\<in>set foods. weight f \<in> \<nat> \<and> foodCalories f \<in> \<int>"
    using assms(1) unfolding integral_catalog_def by (rule conjunct1)
  have b: "sum_list (map (\<lambda>f. \<bar>foodCalories f\<bar>) foods) \<le> 2 ^ 53"
    using assms(1) unfolding integral_catalog_def by (rule conjunct2)
  have 1: "\<forall>f\<in>set s. weight f \<in> \<nat> \<and> foodCalories f \<in> \<int>"
    using assms(2) a by (rule subseq_all)
  have 2: "sum_list (map (\<lambda>f. \<bar>foodCalories f\<bar>) s) \<le> 2 ^ 53"
    using subseq_abs_calories [OF assms(2)] b by linarith
  show ?thesis unfolding integral_catalog_def using 1 2 by (rule conjI)
qed

lemma integral_catalog_rev: "integral_catalog (rev s) = integral_catalog s"
  unfolding integral_catalog_def by (simp add: rev_map [symmetric])

text \<open>On such a catalog \<open>sum_food_vector\<close> computes the exact totals.\<close>

lemma integral_total_calories:
  assumes "integral_catalog s"
  shows "total_calories_of s = sum_list (map foodCalories s)"
proof -
  have 1: "\<forall>x\<in>set (map foodCalories s). x \<in> \<int>"
    using assms unfolding integral_catalog_def by simp
  have m: "map abs (map foodCalories s) = map (\<lambda>f. \<bar>foodCalories f\<bar>) s" by simp
  have "sum_list (map (\<lambda>f. \<bar>foodCalories f\<bar>) s) \<le> 2 ^ 53"
    using assms unfolding integral_catalog_def by (rule conjunct2)
  then have 2: "sum_list (map abs (map foodCalories s)) \<le> 2 ^ 53" unfolding m .
  show ?thesis unfolding total_calories_of_eq using 1 2 by (rule dsum_exact)
qed

lemma integral_total_weight_le:
  assumes "\<forall>f\<in>set s. weight f \<in> \<nat>" and "W < 2 ^ 53"
  shows "total_weight_of s \<le> W \<longleftrightarrow> sum_list (map weight s) \<le> W"
proof -
  have 1: "\<forall>x\<in>set (map weight s). x \<in> \<nat>" using assms(1) by simp
  show ?thesis unfolding total_weight_of_eq using 1 assms(2) by (rule dsum_Nats_le_iff)
qed

subsection \<open>The exact recurrence\<close>

lemma dp_ideal_Suc_ge: "dp_ideal foods k j \<le> dp_ideal foods (Suc k) j"
  by simp

lemma dp_ideal_nonneg: "0 \<le> dp_ideal foods k j"
proof (induction k)
  case 0
  show ?case by simp
next
  case (Suc k)
  then show ?case using dp_ideal_Suc_ge [of foods k j] by linarith
qed

lemma trunc_diff_mono:
  assumes "w \<le> real j" and "j \<le> j'"
  shows "nat (trunc (real j - w)) \<le> nat (trunc (real j' - w))"
proof -
  have "\<lfloor>real j - w\<rfloor> \<le> \<lfloor>real j' - w\<rfloor>" using assms(2) by (intro floor_mono) simp
  moreover have "trunc (real j - w) = \<lfloor>real j - w\<rfloor>" using assms(1) by (simp add: trunc_nonneg)
  moreover have "trunc (real j' - w) = \<lfloor>real j' - w\<rfloor>" using assms by (simp add: trunc_nonneg)
  ultimately show ?thesis by linarith
qed

lemma dp_ideal_mono:
  "j \<le> j' \<Longrightarrow> dp_ideal foods k j \<le> dp_ideal foods k j'"
proof (induction k arbitrary: j j')
  case 0
  show ?case by simp
next
  case (Suc k)
  let ?w = "weight (foods ! k)" and ?v = "foodCalories (foods ! k)"
  have same: "dp_ideal foods k j \<le> dp_ideal foods k j'" using Suc.prems by (rule Suc.IH)
  show ?case
  proof (cases "?w \<le> real j")
    case True
    then have w': "?w \<le> real j'" using Suc.prems by linarith
    have "dp_ideal foods k (nat (trunc (real j - ?w))) \<le> dp_ideal foods k (nat (trunc (real j' - ?w)))"
      using True Suc.prems by (intro Suc.IH trunc_diff_mono)
    then show ?thesis using True w' same by (simp add: max_def)
  next
    case False
    then show ?thesis using same by (simp add: max_def)
  qed
qed

text \<open>An integer weight that fits the column: the index is the exact difference.\<close>

lemma nat_weight_index:
  assumes "weight x = real wn" and "wn \<le> j"
  shows "nat (trunc (real j - weight x)) = j - wn"
proof -
  have e: "real j - real wn = real (j - wn)" using assms(2) by simp
  have "trunc (real j - weight x) = trunc (real (j - wn))" unfolding assms(1) e ..
  also have "\<dots> = int (j - wn)" by (rule trunc_of_nat)
  finally show ?thesis by simp
qed

lemma nat_weight_dsub_index:
  assumes "weight x = real wn" and "wn \<le> j" and "real j \<le> 2 ^ 53"
  shows "nat (trunc (dsub (real j) (weight x))) = j - wn"
proof -
  have e: "real j - real wn = real_of_int (int (j - wn))" using assms(2) by simp
  have "real (j - wn) \<le> real j" by simp
  then have "\<bar>real_of_int (int (j - wn))\<bar> \<le> 2 ^ 53" using assms(3) by simp
  then have x: "to_double (real_of_int (int (j - wn))) = real_of_int (int (j - wn))"
    by (rule to_double_int_exact)
  have "dsub (real j) (weight x) = real (j - wn)"
    unfolding dsub_def assms(1) e x by simp
  then have "trunc (dsub (real j) (weight x)) = trunc (real (j - wn))" by (rule arg_cong)
  also have "\<dots> = int (j - wn)" by (rule trunc_of_nat)
  finally show ?thesis by simp
qed

text \<open>
  No selection of the first \<open>k\<close> items that fits the column has more calories than the
  entry of the exact recurrence.
\<close>

lemma dp_ideal_upper:
  assumes "\<forall>f\<in>set foods. weight f \<in> \<nat>"
  shows "k \<le> length foods \<Longrightarrow> subseq s (take k foods) \<Longrightarrow> sum_list (map weight s) \<le> real j
           \<Longrightarrow> sum_list (map foodCalories s) \<le> dp_ideal foods k j"
proof (induction k arbitrary: s j)
  case 0
  from "0.prems"(2) have "subseq s []" by simp
  then have "s = []" by (rule list_emb_Nil2)
  then show ?case by simp
next
  case (Suc k)
  let ?x = "foods ! k"
  have k: "k < length foods" "k \<le> length foods" using Suc.prems(1) by simp_all
  have tk: "take (Suc k) foods = take k foods @ [?x]"
    using k(1) by (rule take_Suc_conv_app_nth)
  have "subseq s (take k foods @ [?x])"
    using Suc.prems(2) unfolding tk .
  then have "subseq s (take k foods) \<or> (\<exists>s'. s = s' @ [?x] \<and> subseq s' (take k foods))"
    by (rule subseq_snoc_cases)
  then show ?case
  proof (elim disjE exE conjE)
    assume 1: "subseq s (take k foods)"
    have "sum_list (map foodCalories s) \<le> dp_ideal foods k j"
      using k(2) 1 Suc.prems(3) by (rule Suc.IH)
    then show ?thesis using dp_ideal_Suc_ge [of foods k j] by linarith
  next
    fix s'
    assume s: "s = s' @ [?x]" and s': "subseq s' (take k foods)"
    have "weight ?x \<in> \<nat>" using assms k(1) by simp
    then obtain wn :: nat where wn: "weight ?x = real wn" by (rule Nats_real_obtain)
    have "subseq s' foods" using s' by (rule subseq_take_imp)
    then have "\<forall>f\<in>set s'. weight f \<in> \<nat>" using assms by (rule subseq_all)
    then have "\<forall>x\<in>set (map weight s'). 0 \<le> x" using Nats_nonneg_real by simp
    then have s0: "0 \<le> sum_list (map weight s')" by (rule sum_list_nonneg_real)
    have sw: "sum_list (map weight s) = sum_list (map weight s') + real wn"
      unfolding s by (simp add: wn)
    have "real wn \<le> real j" using Suc.prems(3) s0 unfolding sw by linarith
    then have le: "wn \<le> j" by (simp only: of_nat_le_iff)
    have wj: "weight ?x \<le> real j" unfolding wn using le by simp
    have idx: "nat (trunc (real j - weight ?x)) = j - wn" using wn le by (rule nat_weight_index)
    have "real (j - wn) = real j - real wn" using le by simp
    then have "sum_list (map weight s') \<le> real (j - wn)" using Suc.prems(3) unfolding sw by linarith
    with k(2) s' have "sum_list (map foodCalories s') \<le> dp_ideal foods k (j - wn)"
      by (rule Suc.IH)
    then have "sum_list (map foodCalories s) \<le> foodCalories ?x + dp_ideal foods k (j - wn)"
      unfolding s by simp
    also have "\<dots> \<le> dp_ideal foods (Suc k) j"
      unfolding dp_ideal.simps idx using wj by simp
    finally show ?thesis .
  qed
qed

lemma dp_ideal_Ints:
  assumes "\<forall>f\<in>set foods. foodCalories f \<in> \<int>"
  shows "k \<le> length foods \<Longrightarrow> dp_ideal foods k j \<in> \<int>"
proof (induction k arbitrary: j)
  case 0
  show ?case by simp
next
  case (Suc k)
  have k: "k < length foods" "k \<le> length foods" using Suc.prems by simp_all
  have c: "foodCalories (foods ! k) \<in> \<int>" using assms k(1) by simp
  have a: "dp_ideal foods k j' \<in> \<int>" for j' using k(2) by (rule Suc.IH)
  have "foodCalories (foods ! k) + dp_ideal foods k j' \<in> \<int>" for j'
    using c a by (rule Ints_add)
  then show ?case using a by (simp add: max_def)
qed

lemma dp_ideal_abs:
  "k \<le> length foods \<Longrightarrow>
     \<bar>dp_ideal foods k j\<bar> \<le> sum_list (map (\<lambda>f. \<bar>foodCalories f\<bar>) (take k foods))"
proof (induction k arbitrary: j)
  case 0
  show ?case by simp
next
  case (Suc k)
  have k: "k < length foods" "k \<le> length foods" using Suc.prems by simp_all
  define S where "S = sum_list (map (\<lambda>f. \<bar>foodCalories f\<bar>) (take k foods))"
  have tk: "sum_list (map (\<lambda>f. \<bar>foodCalories f\<bar>) (take (Suc k) foods))
              = S + \<bar>foodCalories (foods ! k)\<bar>"
    unfolding S_def take_Suc_conv_app_nth [OF k(1)] by simp
  have a: "\<bar>dp_ideal foods k j'\<bar> \<le> S" for j' unfolding S_def using k(2) by (rule Suc.IH)
  have b: "\<bar>foodCalories (foods ! k) + dp_ideal foods k j'\<bar> \<le> S + \<bar>foodCalories (foods ! k)\<bar>" for j'
    using a [of j'] by linarith
  have c: "\<bar>dp_ideal foods k j\<bar> \<le> S + \<bar>foodCalories (foods ! k)\<bar>" using a [of j] by linarith
  show ?case unfolding tk dp_ideal.simps using b c by (simp add: max_def)
qed

lemma abs_calories_take_le:
  "sum_list (map (\<lambda>f. \<bar>foodCalories f\<bar>) (take k foods))
     \<le> sum_list (map (\<lambda>f. \<bar>foodCalories f\<bar>) foods)"
proof -
  have "subseq (take k foods) foods" using subseq_rev_drop_many [of "take k foods" "take k foods" "drop k foods"]
    by simp
  then show ?thesis by (rule subseq_abs_calories)
qed

text \<open>On an integral catalog the table holds the entries of the exact recurrence.\<close>

lemma dp_entry_exact:
  assumes "integral_catalog foods"
  shows "k \<le> length foods \<Longrightarrow> real j \<le> 2 ^ 53 \<Longrightarrow> dp_entry foods k j = dp_ideal foods k j"
proof (induction k arbitrary: j)
  case 0
  show ?case by simp
next
  case (Suc k)
  let ?x = "foods ! k"
  have k: "k < length foods" "k \<le> length foods" using Suc.prems(1) by simp_all
  have ints: "\<forall>f\<in>set foods. foodCalories f \<in> \<int>"
    using assms unfolding integral_catalog_def by simp
  have bound: "sum_list (map (\<lambda>f. \<bar>foodCalories f\<bar>) foods) \<le> 2 ^ 53"
    using assms unfolding integral_catalog_def by (rule conjunct2)
  have same: "dp_entry foods k j = dp_ideal foods k j" using k(2) Suc.prems(2) by (rule Suc.IH)
  show ?case
  proof (cases "weight ?x \<le> real j")
    case False
    then show ?thesis using same by simp
  next
    case True
    have "weight ?x \<in> \<nat>" using assms k(1) unfolding integral_catalog_def by simp
    then obtain wn :: nat where wn: "weight ?x = real wn" by (rule Nats_real_obtain)
    have "real wn \<le> real j" using True unfolding wn .
    then have le: "wn \<le> j" by (simp only: of_nat_le_iff)
    have i1: "nat (trunc (dsub (real j) (weight ?x))) = j - wn"
      using wn le Suc.prems(2) by (rule nat_weight_dsub_index)
    have i2: "nat (trunc (real j - weight ?x)) = j - wn" using wn le by (rule nat_weight_index)
    have "real (j - wn) \<le> real j" by simp
    then have "real (j - wn) \<le> 2 ^ 53" using Suc.prems(2) by linarith
    with k(2) have left: "dp_entry foods k (j - wn) = dp_ideal foods k (j - wn)" by (rule Suc.IH)
    define d where "d = dp_ideal foods k (j - wn)"
    have dI: "d \<in> \<int>" unfolding d_def using ints k(2) by (rule dp_ideal_Ints)
    have cI: "foodCalories ?x \<in> \<int>" using ints k(1) by simp
    have sI: "foodCalories ?x + d \<in> \<int>" using cI dI by (rule Ints_add)
    have "\<bar>d\<bar> \<le> sum_list (map (\<lambda>f. \<bar>foodCalories f\<bar>) (take k foods))"
      unfolding d_def using k(2) by (rule dp_ideal_abs)
    then have "\<bar>foodCalories ?x + d\<bar>
                 \<le> sum_list (map (\<lambda>f. \<bar>foodCalories f\<bar>) (take k foods)) + \<bar>foodCalories ?x\<bar>"
      by linarith
    also have "\<dots> = sum_list (map (\<lambda>f. \<bar>foodCalories f\<bar>) (take (Suc k) foods))"
      unfolding take_Suc_conv_app_nth [OF k(1)] by simp
    also have "\<dots> \<le> sum_list (map (\<lambda>f. \<bar>foodCalories f\<bar>) foods)"
      by (rule abs_calories_take_le)
    finally have "\<bar>foodCalories ?x + d\<bar> \<le> 2 ^ 53" using bound by linarith
    with sI have ex: "dadd (foodCalories ?x) d = foodCalories ?x + d"
      unfolding dadd_def by (rule to_double_Ints_exact)
    have ex': "dadd (foodCalories ?x) (dp_ideal foods k (j - wn))
                 = foodCalories ?x + dp_ideal foods k (j - wn)"
      using ex unfolding d_def .
    have "dp_entry foods (Suc k) j
            = max (dadd (foodCalories ?x) (dp_ideal foods k (j - wn))) (dp_ideal foods k j)"
      unfolding dp_entry.simps i1 left same using True by simp
    also have "\<dots> = dp_ideal foods (Suc k) j"
      unfolding dp_ideal.simps i2 ex' using True by simp
    finally show ?thesis .
  qed
qed

lemma dp_ideal_changed:
  assumes "dp_ideal foods (Suc i) j \<noteq> dp_ideal foods i j"
  shows "weight (foods ! i) \<le> real j"
    and "dp_ideal foods (Suc i) j
           = foodCalories (foods ! i) + dp_ideal foods i (nat (trunc (real j - weight (foods ! i))))"
  using assms by (simp_all add: max_def split: if_splits)

text \<open>The traced items weigh at most the column they are traced from.\<close>

lemma trace_items_weight:
  assumes "\<forall>f\<in>set foods. weight f \<in> \<nat>"
  shows "i \<le> length foods \<Longrightarrow> real j \<le> 2 ^ 53 \<Longrightarrow>
           sum_list (map weight (trace_items foods i j)) \<le> real j"
proof (induction i arbitrary: j)
  case 0
  show ?case by simp
next
  case (Suc i)
  let ?x = "foods ! i"
  have i: "i < length foods" "i \<le> length foods" using Suc.prems(1) by simp_all
  show ?case
  proof (cases "dp_entry foods (Suc i) j = dp_entry foods i j")
    case True
    have "sum_list (map weight (trace_items foods i j)) \<le> real j"
      using i(2) Suc.prems(2) by (rule Suc.IH)
    then show ?thesis using True by (simp del: dp_entry.simps)
  next
    case False
    have wj: "weight ?x \<le> real j" using False by (rule dp_entry_changed(1))
    have "weight ?x \<in> \<nat>" using assms i(1) by simp
    then obtain wn :: nat where wn: "weight ?x = real wn" by (rule Nats_real_obtain)
    have "real wn \<le> real j" using wj unfolding wn .
    then have le: "wn \<le> j" by (simp only: of_nat_le_iff)
    have i1: "nat (trunc (dsub (real j) (weight ?x))) = j - wn"
      using wn le Suc.prems(2) by (rule nat_weight_dsub_index)
    have "real (j - wn) \<le> real j" by simp
    then have "real (j - wn) \<le> 2 ^ 53" using Suc.prems(2) by linarith
    with i(2) have "sum_list (map weight (trace_items foods i (j - wn))) \<le> real (j - wn)"
      by (rule Suc.IH)
    moreover have "real (j - wn) = real j - real wn" using le by simp
    ultimately have "real wn + sum_list (map weight (trace_items foods i (j - wn))) \<le> real j"
      by linarith
    moreover have "trace_items foods (Suc i) j = ?x # trace_items foods i (j - wn)"
      using False unfolding trace_items.simps i1 by (simp del: dp_entry.simps)
    ultimately show ?thesis by (simp add: wn del: dp_entry.simps)
  qed
qed

text \<open>On an integral catalog the traced items have the calories of the entry.\<close>

lemma trace_items_calories:
  assumes "integral_catalog foods"
  shows "i \<le> length foods \<Longrightarrow> real j \<le> 2 ^ 53 \<Longrightarrow>
           sum_list (map foodCalories (trace_items foods i j)) = dp_ideal foods i j"
proof (induction i arbitrary: j)
  case 0
  show ?case by simp
next
  case (Suc i)
  let ?x = "foods ! i"
  have i: "i < length foods" "i \<le> length foods" using Suc.prems(1) by simp_all
  have e1: "dp_entry foods (Suc i) j = dp_ideal foods (Suc i) j"
    using assms Suc.prems by (rule dp_entry_exact)
  have e0: "dp_entry foods i j = dp_ideal foods i j"
    using assms i(2) Suc.prems(2) by (rule dp_entry_exact)
  show ?case
  proof (cases "dp_ideal foods (Suc i) j = dp_ideal foods i j")
    case True
    have "trace_items foods (Suc i) j = trace_items foods i j"
      unfolding trace_items.simps e1 e0 using True by simp
    moreover have "sum_list (map foodCalories (trace_items foods i j)) = dp_ideal foods i j"
      using i(2) Suc.prems(2) by (rule Suc.IH)
    ultimately show ?thesis using True by (simp only:)
  next
    case False
    note ch = dp_ideal_changed [OF False]
    have "weight ?x \<in> \<nat>" using assms i(1) unfolding integral_catalog_def by simp
    then obtain wn :: nat where wn: "weight ?x = real wn" by (rule Nats_real_obtain)
    have "real wn \<le> real j" using ch(1) unfolding wn .
    then have le: "wn \<le> j" by (simp only: of_nat_le_iff)
    have i1: "nat (trunc (dsub (real j) (weight ?x))) = j - wn"
      using wn le Suc.prems(2) by (rule nat_weight_dsub_index)
    have i2: "nat (trunc (real j - weight ?x)) = j - wn" using wn le by (rule nat_weight_index)
    have "real (j - wn) \<le> real j" by simp
    then have "real (j - wn) \<le> 2 ^ 53" using Suc.prems(2) by linarith
    with i(2) have ih: "sum_list (map foodCalories (trace_items foods i (j - wn)))
                         = dp_ideal foods i (j - wn)"
      by (rule Suc.IH)
    have t: "trace_items foods (Suc i) j = ?x # trace_items foods i (j - wn)"
      unfolding trace_items.simps e1 e0 i1 using False by simp
    have "sum_list (map foodCalories (trace_items foods (Suc i) j))
            = foodCalories ?x + dp_ideal foods i (j - wn)"
      unfolding t using ih by simp
    also have "\<dots> = dp_ideal foods (Suc i) j" using ch(2) unfolding i2 by simp
    finally show ?thesis .
  qed
qed

section \<open>Properties of the dynamic program\<close>

lemma sorted_wrt_greater_distinct: "sorted_wrt (>) (idxs::nat list) \<Longrightarrow> distinct idxs"
  by (induction idxs) auto

lemma Nats_floor_real:
  assumes "(W::real) \<in> \<nat>"
  shows "0 \<le> W" and "real (nat \<lfloor>W\<rfloor>) = W"
proof -
  obtain c :: nat where c: "W = real c" using assms by (rule Nats_real_obtain)
  show "0 \<le> W" unfolding c by simp
  show "real (nat \<lfloor>W\<rfloor>) = W" unfolding c by simp
qed

lemma Nats_weights_nonneg:
  "\<forall>f\<in>set foods. weight f \<in> \<nat> \<Longrightarrow> \<forall>f\<in>set foods. 0 \<le> weight f"
  using Nats_nonneg_real by blast

lemma integral_catalog_weights:
  "integral_catalog foods \<Longrightarrow> \<forall>f\<in>set foods. weight f \<in> \<nat>"
  unfolding integral_catalog_def by simp

lemma capacity_column_bound:
  assumes "0 \<le> W" and "W < 2 ^ 31 - 1"
  shows "real (nat \<lfloor>W\<rfloor>) \<le> W" and "real (nat \<lfloor>W\<rfloor>) \<le> 2 ^ 53" and "W < 2 ^ 53"
proof -
  have "real (nat \<lfloor>W\<rfloor>) = real_of_int \<lfloor>W\<rfloor>" using assms(1) by simp
  also have "\<dots> \<le> W" by (rule of_int_floor_le)
  finally show 1: "real (nat \<lfloor>W\<rfloor>) \<le> W" .
  show 2: "W < 2 ^ 53" using assms(2) by simp
  show "real (nat \<lfloor>W\<rfloor>) \<le> 2 ^ 53" using 1 2 by linarith
qed

lemma trace_items_subseq:
  "subseq (rev (trace_items foods (length foods) j)) foods"
proof -
  have "traced foods (length foods) (trace_items foods (length foods) j)"
    using order_refl by (rule trace_items_traced)
  then show ?thesis unfolding traced_def by simp
qed

text \<open>With integer weights the returned items fit the capacity.\<close>

lemma dynamic_weight_fits:
  assumes "\<forall>f\<in>set foods. weight f \<in> \<nat>" and "0 \<le> W"
    and "dynamic_max_calories foods W = Inr best"
  shows "sum_list (map weight best) \<le> W" and "total_weight_of best \<le> W"
proof -
  note w0 = Nats_weights_nonneg [OF assms(1)]
  have b: "W < 2 ^ 31 - 1" using assms(3) by (rule dynamic_Inr_bound)
  note cb = capacity_column_bound [OF assms(2) b]
  have best: "best = trace_items foods (length foods) (nat \<lfloor>W\<rfloor>)"
    using w0 assms(2,3) by (rule dynamic_Inr_trace)
  have "sum_list (map weight best) \<le> real (nat \<lfloor>W\<rfloor>)"
    unfolding best using assms(1) order_refl cb(2) by (rule trace_items_weight)
  then show s: "sum_list (map weight best) \<le> W" using cb(1) by linarith
  have "subseq (rev best) foods" unfolding best by (rule trace_items_subseq)
  then have "\<forall>f\<in>set (rev best). weight f \<in> \<nat>" using assms(1) by (rule subseq_all)
  then have "\<forall>f\<in>set best. weight f \<in> \<nat>" by simp
  then have "total_weight_of best \<le> W \<longleftrightarrow> sum_list (map weight best) \<le> W"
    using cb(3) by (rule integral_total_weight_le)
  then show "total_weight_of best \<le> W" using s by simp
qed

text \<open>On an integral catalog the returned items have the calories of the last entry.\<close>

lemma dynamic_calories_ideal:
  assumes "integral_catalog foods" and "0 \<le> W"
    and "dynamic_max_calories foods W = Inr best"
  shows "total_calories_of best = dp_ideal foods (length foods) (nat \<lfloor>W\<rfloor>)"
    and "integral_catalog best"
proof -
  note w0 = Nats_weights_nonneg [OF integral_catalog_weights [OF assms(1)]]
  have b: "W < 2 ^ 31 - 1" using assms(3) by (rule dynamic_Inr_bound)
  note cb = capacity_column_bound [OF assms(2) b]
  have best: "best = trace_items foods (length foods) (nat \<lfloor>W\<rfloor>)"
    using w0 assms(2,3) by (rule dynamic_Inr_trace)
  have "subseq (rev best) foods" unfolding best by (rule trace_items_subseq)
  with assms(1) have "integral_catalog (rev best)" by (rule integral_catalog_subseq)
  then show i: "integral_catalog best" by (simp only: integral_catalog_rev)
  have "total_calories_of best = sum_list (map foodCalories best)"
    using i by (rule integral_total_calories)
  also have "\<dots> = dp_ideal foods (length foods) (nat \<lfloor>W\<rfloor>)"
    unfolding best using assms(1) order_refl cb(2) by (rule trace_items_calories)
  finally show "total_calories_of best = dp_ideal foods (length foods) (nat \<lfloor>W\<rfloor>)" .
qed

lemma dynamic_table_entry:
  assumes "integral_catalog foods" and "0 \<le> W"
    and "dynamic_max_calories foods W = Inr best"
  shows "\<exists>T. dp_table foods W = Inr T
            \<and> total_calories_of best = T ! length foods ! nat \<lfloor>W\<rfloor>"
proof -
  let ?n = "nat (\<lfloor>W\<rfloor> + 1)"
  let ?T = "map (table_row foods ?n) [0..<Suc (length foods)]"
  note w0 = Nats_weights_nonneg [OF integral_catalog_weights [OF assms(1)]]
  have b: "W < 2 ^ 31 - 1" using assms(3) by (rule dynamic_Inr_bound)
  note cb = capacity_column_bound [OF assms(2) b]
  have T: "dp_table foods W = Inr ?T" using w0 b by (rule dp_table_eq)
  have j: "nat \<lfloor>W\<rfloor> < ?n" using b assms(2) by (rule capacity_columns(2))
  have "?T ! length foods = table_row foods ?n (length foods)"
    by (subst nth_map) (simp_all del: upt_Suc)
  then have "?T ! length foods ! nat \<lfloor>W\<rfloor> = dp_entry foods (length foods) (nat \<lfloor>W\<rfloor>)"
    using j by simp
  also have "\<dots> = dp_ideal foods (length foods) (nat \<lfloor>W\<rfloor>)"
    using assms(1) order_refl cb(2) by (rule dp_entry_exact)
  also have "\<dots> = total_calories_of best"
    using dynamic_calories_ideal(1) [OF assms] by (rule sym)
  finally have "total_calories_of best = ?T ! length foods ! nat \<lfloor>W\<rfloor>" by (rule sym)
  with T show ?thesis by (intro exI [where x = ?T] conjI)
qed

lemma dynamic_optimal:
  assumes "integral_catalog foods" and "W \<in> \<nat>"
    and "dynamic_max_calories foods W = Inr best"
    and "subseq s foods" and "total_weight_of s \<le> W"
  shows "total_calories_of s \<le> total_calories_of best"
proof -
  note W = Nats_floor_real [OF assms(2)]
  note wN = integral_catalog_weights [OF assms(1)]
  have b: "W < 2 ^ 31 - 1" using assms(3) by (rule dynamic_Inr_bound)
  note cb = capacity_column_bound [OF W(1) b]
  have si: "integral_catalog s" using assms(1,4) by (rule integral_catalog_subseq)
  have "total_weight_of s \<le> W \<longleftrightarrow> sum_list (map weight s) \<le> W"
    using integral_catalog_weights [OF si] cb(3) by (rule integral_total_weight_le)
  then have "sum_list (map weight s) \<le> W" using assms(5) by simp
  then have sw: "sum_list (map weight s) \<le> real (nat \<lfloor>W\<rfloor>)" unfolding W(2) .
  have st: "subseq s (take (length foods) foods)" using assms(4) by simp
  have "total_calories_of s = sum_list (map foodCalories s)"
    using si by (rule integral_total_calories)
  also have "\<dots> \<le> dp_ideal foods (length foods) (nat \<lfloor>W\<rfloor>)"
    using wN order_refl st sw by (rule dp_ideal_upper)
  also have "\<dots> = total_calories_of best"
    using dynamic_calories_ideal(1) [OF assms(1) W(1) assms(3)] by (rule sym)
  finally show ?thesis .
qed

text \<open>
  C3, as stated, fails when a sum of calories is rounded: with calories 1, \<open>2^53\<close> and 2,
  all of weight 1, and capacity 3, the last table entry is \<open>2^53 + 2\<close> (the sum
  \<open>2^53 + 1\<close> in the second row is rounded to \<open>2^53\<close>), the traceback returns all three
  items, and \<open>sum_food_vector\<close> gives them \<open>2^53 + 4\<close> calories.
\<close>

theorem dynamic_total_differs_from_last_entry:
  "dynamic_max_calories [item 1 1, item 1 (2 ^ 53), item 1 2] 3
     = Inr [item 1 2, item 1 (2 ^ 53), item 1 1]
   \<and> (\<exists>T. dp_table [item 1 1, item 1 (2 ^ 53), item 1 2] 3 = Inr T
          \<and> T ! 3 ! 3 = 2 ^ 53 + 2)
   \<and> snd (sum_food_vector [item 1 2, item 1 (2 ^ 53), item 1 1]) = 2 ^ 53 + 4"
proof -
  have r: "dynamic_max_calories [item 1 1, item 1 (2 ^ 53), item 1 2] 3
             = Inr [item 1 2, item 1 (2 ^ 53), item 1 1]"
    by code_simp
  have t: "dp_table [item 1 1, item 1 (2 ^ 53), item 1 2] 3
             = Inr [[0, 0, 0, 0], [0, 1, 1, 1], [0, 2 ^ 53, 2 ^ 53, 2 ^ 53],
                    [0, 2 ^ 53, 2 ^ 53 + 2, 2 ^ 53 + 2]]"
    by code_simp
  have "[[0, 0, 0, 0], [0, 1, 1, 1], [0, 2 ^ 53, 2 ^ 53, 2 ^ 53],
         [0, 2 ^ 53, 2 ^ 53 + 2, 2 ^ 53 + 2]] ! 3 ! 3 = (2 ^ 53 + 2 :: real)"
    by simp
  with t have e: "\<exists>T. dp_table [item 1 1, item 1 (2 ^ 53), item 1 2] 3 = Inr T
          \<and> T ! 3 ! 3 = 2 ^ 53 + 2"
    by (intro exI conjI)
  have s: "snd (sum_food_vector [item 1 2, item 1 (2 ^ 53), item 1 1]) = 2 ^ 53 + 4"
    by code_simp
  show ?thesis using r e s by (intro conjI)
qed

text \<open>
  C3, amended. On a catalog whose weights are non-negative integers and whose calories are
  integers with absolute values adding up to at most \<open>2^53\<close>, and for a capacity that is a
  non-negative integer: the subset returned by \<open>dynamic_max_calories\<close> has the calories of
  the last table entry, \<open>T[N][W]\<close>, is a selection of catalog items that fits the capacity,
  and no selection that fits has more calories (totals as \<open>sum_food_vector\<close> computes
  them). The call returns whenever the capacity is below \<open>INT_MAX\<close>.
\<close>

theorem dynamic_total_is_last_entry_and_optimal:
  assumes "integral_catalog foods" and "W \<in> \<nat>"
  shows "(W < 2 ^ 31 - 1 \<longrightarrow> (\<exists>best. dynamic_max_calories foods W = Inr best))
       \<and> (\<forall>best. dynamic_max_calories foods W = Inr best \<longrightarrow>
             (\<exists>T. dp_table foods W = Inr T
                  \<and> total_calories_of best = T ! length foods ! nat \<lfloor>W\<rfloor>)
             \<and> subseq (rev best) foods \<and> total_weight_of best \<le> W
             \<and> (\<forall>s. subseq s foods \<longrightarrow> total_weight_of s \<le> W
                       \<longrightarrow> total_calories_of s \<le> total_calories_of best))"
proof (intro conjI impI allI)
  note W = Nats_floor_real [OF assms(2)]
  note wN = integral_catalog_weights [OF assms(1)]
  note w0 = Nats_weights_nonneg [OF wN]
  show "\<exists>best. dynamic_max_calories foods W = Inr best" if "W < 2 ^ 31 - 1"
    using dynamic_returns [OF w0 W(1) that] by (rule exI)
  fix best
  assume b: "dynamic_max_calories foods W = Inr best"
  show "\<exists>T. dp_table foods W = Inr T \<and> total_calories_of best = T ! length foods ! nat \<lfloor>W\<rfloor>"
    using assms(1) W(1) b by (rule dynamic_table_entry)
  have "best = trace_items foods (length foods) (nat \<lfloor>W\<rfloor>)"
    using w0 W(1) b by (rule dynamic_Inr_trace)
  then show "subseq (rev best) foods" using trace_items_subseq by simp
  show "total_weight_of best \<le> W" using wN W(1) b by (rule dynamic_weight_fits(2))
  fix s
  assume "subseq s foods" and "total_weight_of s \<le> W"
  with assms b show "total_calories_of s \<le> total_calories_of best"
    by (rule dynamic_optimal)
qed

text \<open>
  The example of the specification: weights 2, 3, 4, 5 with calories 3, 4, 5, 6 and capacity 5. The
  items of weight 3 and 2 are returned, 7 calories and weight 5, the entry \<open>T[4][5]\<close>.
\<close>

theorem dynamic_traceback_example:
  "dynamic_max_calories [item 2 3, item 3 4, item 4 5, item 5 6] 5 = Inr [item 3 4, item 2 3]
   \<and> sum_food_vector [item 3 4, item 2 3] = (5, 7)
   \<and> (\<exists>T. dp_table [item 2 3, item 3 4, item 4 5, item 5 6] 5 = Inr T \<and> T ! 4 ! 5 = 7)"
proof -
  have r: "dynamic_max_calories [item 2 3, item 3 4, item 4 5, item 5 6] 5 = Inr [item 3 4, item 2 3]"
    by code_simp
  have s: "sum_food_vector [item 3 4, item 2 3] = (5, 7)"
    by code_simp
  have w: "integral_catalog [item 2 3, item 3 4, item 4 5, item 5 6]"
    by (simp add: integral_catalog_def item_def)
  have n: "(5::real) \<in> \<nat>" by (metis Nats_numeral)
  have c: "total_calories_of [item 3 4, item 2 3] = 7"
    by (simp add: total_calories_of_def s)
  have a: "\<forall>best. dynamic_max_calories [item 2 3, item 3 4, item 4 5, item 5 6] 5 = Inr best \<longrightarrow>
             (\<exists>T. dp_table [item 2 3, item 3 4, item 4 5, item 5 6] 5 = Inr T
                  \<and> total_calories_of best
                      = T ! length [item 2 3, item 3 4, item 4 5, item 5 6] ! nat \<lfloor>5::real\<rfloor>)
             \<and> subseq (rev best) [item 2 3, item 3 4, item 4 5, item 5 6]
             \<and> total_weight_of best \<le> 5
             \<and> (\<forall>s. subseq s [item 2 3, item 3 4, item 4 5, item 5 6] \<longrightarrow> total_weight_of s \<le> 5
                       \<longrightarrow> total_calories_of s \<le> total_calories_of best)"
    using dynamic_total_is_last_entry_and_optimal [OF w n] by (rule conjunct2)
  have "\<exists>T. dp_table [item 2 3, item 3 4, item 4 5, item 5 6] 5 = Inr T
            \<and> total_calories_of [item 3 4, item 2 3]
                 = T ! length [item 2 3, item 3 4, item 4 5, item 5 6] ! nat \<lfloor>5::real\<rfloor>"
    using a [rule_format, OF r] by (rule conjunct1)
  then obtain T where T: "dp_table [item 2 3, item 3 4, item 4 5, item 5 6] 5 = Inr T"
      "total_calories_of [item 3 4, item 2 3]
         = T ! length [item 2 3, item 3 4, item 4 5, item 5 6] ! nat \<lfloor>5::real\<rfloor>"
    by (elim exE conjE)
  have l: "length [item 2 3, item 3 4, item 4 5, item 5 6] = 4" by simp
  have f: "nat \<lfloor>5::real\<rfloor> = 5" by simp
  have "T ! 4 ! 5 = 7" using T(2) unfolding l f c by simp
  with T(1) have "\<exists>T. dp_table [item 2 3, item 3 4, item 4 5, item 5 6] 5 = Inr T \<and> T ! 4 ! 5 = 7"
    by (intro exI conjI)
  with r s show ?thesis by (intro conjI)
qed

text \<open>
  C10. The subset returned by \<open>dynamic_max_calories\<close> lists catalog items at strictly
  decreasing positions, so no position occurs twice. The call returns for every capacity
  from 0 up to \<open>INT_MAX - 1\<close>.
\<close>

theorem dynamic_result_decreasing_positions:
  assumes "\<forall>f\<in>set foods. 0 \<le> weight f"
  shows "(0 \<le> W \<longrightarrow> W < 2 ^ 31 - 1 \<longrightarrow> (\<exists>best. dynamic_max_calories foods W = Inr best))
       \<and> (\<forall>best. dynamic_max_calories foods W = Inr best \<longrightarrow>
             (\<exists>idxs. best = map ((!) foods) idxs \<and> sorted_wrt (>) idxs
                    \<and> (\<forall>i\<in>set idxs. i < length foods) \<and> distinct idxs))"
proof (intro conjI impI allI)
  show "\<exists>best. dynamic_max_calories foods W = Inr best" if "0 \<le> W" "W < 2 ^ 31 - 1"
    using dynamic_returns [OF assms that] by (rule exI)
  fix best
  assume b: "dynamic_max_calories foods W = Inr best"
  show "\<exists>idxs. best = map ((!) foods) idxs \<and> sorted_wrt (>) idxs
                    \<and> (\<forall>i\<in>set idxs. i < length foods) \<and> distinct idxs"
  proof (cases "0 \<le> W")
    case True
    with assms have "best = trace_items foods (length foods) (nat \<lfloor>W\<rfloor>)"
      using b by (rule dynamic_Inr_trace)
    then have "traced foods (length foods) best"
      using trace_items_traced [OF order_refl] by simp
    then have "\<exists>idxs. best = map ((!) foods) idxs \<and> sorted_wrt (>) idxs
                 \<and> (\<forall>i\<in>set idxs. i < length foods)"
      unfolding traced_def by (rule conjunct1)
    then obtain idxs where i: "best = map ((!) foods) idxs" "sorted_wrt (>) idxs"
        "\<forall>i\<in>set idxs. i < length foods"
      by (elim exE conjE)
    from i(2) have "distinct idxs" by (rule sorted_wrt_greater_distinct)
    with i show ?thesis by (intro exI [where x = idxs] conjI)
  next
    case False
    then have "W < 0" by simp
    with assms have "best = []" using b by (rule dynamic_negative_capacity(2))
    then have "best = map ((!) foods) [] \<and> sorted_wrt (>) ([]::nat list)
                    \<and> (\<forall>i\<in>set ([]::nat list). i < length foods) \<and> distinct ([]::nat list)"
      by simp
    then show ?thesis by (rule exI)
  qed
qed

text \<open>An instance: of three items the third and the first are returned, in that order.\<close>

theorem dynamic_result_positions_example:
  "dynamic_max_calories [item 1 1, item 5 9, item 2 2] 3 = Inr [item 2 2, item 1 1]
   \<and> (\<exists>idxs. [item 2 2, item 1 1] = map ((!) [item 1 1, item 5 9, item 2 2]) idxs
          \<and> sorted_wrt (>) idxs \<and> distinct idxs)"
proof -
  have r: "dynamic_max_calories [item 1 1, item 5 9, item 2 2] 3 = Inr [item 2 2, item 1 1]"
    by code_simp
  have w: "\<forall>f\<in>set [item 1 1, item 5 9, item 2 2]. 0 \<le> weight f"
    by (simp add: item_def)
  have a: "\<forall>best. dynamic_max_calories [item 1 1, item 5 9, item 2 2] 3 = Inr best \<longrightarrow>
             (\<exists>idxs. best = map ((!) [item 1 1, item 5 9, item 2 2]) idxs \<and> sorted_wrt (>) idxs
                    \<and> (\<forall>i\<in>set idxs. i < length [item 1 1, item 5 9, item 2 2]) \<and> distinct idxs)"
    using dynamic_result_decreasing_positions [OF w, of 3] by (rule conjunct2)
  from a [rule_format, OF r]
  obtain idxs where i: "[item 2 2, item 1 1] = map ((!) [item 1 1, item 5 9, item 2 2]) idxs
      \<and> sorted_wrt (>) idxs
      \<and> (\<forall>i\<in>set idxs. i < length [item 1 1, item 5 9, item 2 2]) \<and> distinct idxs" ..
  have i1: "[item 2 2, item 1 1] = map ((!) [item 1 1, item 5 9, item 2 2]) idxs"
    using i by (rule conjunct1)
  have i2: "sorted_wrt (>) idxs" using i by (elim conjE)
  have i3: "distinct idxs" using i by (elim conjE)
  have "\<exists>idxs. [item 2 2, item 1 1] = map ((!) [item 1 1, item 5 9, item 2 2]) idxs
          \<and> sorted_wrt (>) idxs \<and> distinct idxs"
    using i1 i2 i3 by (intro exI [where x = idxs] conjI)
  with r show ?thesis by (intro conjI)
qed

text \<open>
  C5, as stated, fails in two ways. For a negative capacity no candidate fits, the
  exhaustive search returns its initial empty subset, and the weight 0 of that subset
  exceeds the capacity. And with weights that are not integers the dynamic program can
  return too much: for an item of weight 4 and three items of weight \<open>2^-52\<close> under
  capacity 4, each difference \<open>4 - 2^-52\<close> is rounded to 4, all four items are returned,
  and \<open>sum_food_vector\<close> gives them the weight \<open>4 + 2^-50\<close>.
\<close>

theorem returned_weight_exceeds_capacity:
  "exhaustive_max_calories [item 1 1] (- 1) = Inr []
   \<and> \<not> fst (sum_food_vector []) \<le> (- 1 :: real)
   \<and> dynamic_max_calories
        [item 4 10, item (1 / 2 ^ 52) 1, item (1 / 2 ^ 52) 1, item (1 / 2 ^ 52) 1] 4
       = Inr [item (1 / 2 ^ 52) 1, item (1 / 2 ^ 52) 1, item (1 / 2 ^ 52) 1, item 4 10]
   \<and> fst (sum_food_vector
            [item (1 / 2 ^ 52) 1, item (1 / 2 ^ 52) 1, item (1 / 2 ^ 52) 1, item 4 10])
       = 4 + 1 / 2 ^ 50
   \<and> \<not> fst (sum_food_vector
              [item (1 / 2 ^ 52) 1, item (1 / 2 ^ 52) 1, item (1 / 2 ^ 52) 1, item 4 10])
         \<le> (4 :: real)"
proof -
  have 1: "exhaustive_max_calories [item 1 1] (- 1) = Inr []" by code_simp
  have 2: "\<not> fst (sum_food_vector []) \<le> (- 1 :: real)" by (simp add: sum_food_vector_def)
  have 3: "dynamic_max_calories
        [item 4 10, item (1 / 2 ^ 52) 1, item (1 / 2 ^ 52) 1, item (1 / 2 ^ 52) 1] 4
       = Inr [item (1 / 2 ^ 52) 1, item (1 / 2 ^ 52) 1, item (1 / 2 ^ 52) 1, item 4 10]"
    by code_simp
  have 4: "fst (sum_food_vector
            [item (1 / 2 ^ 52) 1, item (1 / 2 ^ 52) 1, item (1 / 2 ^ 52) 1, item 4 10])
       = 4 + 1 / 2 ^ 50"
    by code_simp
  have 5: "\<not> fst (sum_food_vector
              [item (1 / 2 ^ 52) 1, item (1 / 2 ^ 52) 1, item (1 / 2 ^ 52) 1, item 4 10])
         \<le> (4 :: real)"
    unfolding 4 by simp
  show ?thesis using 1 2 3 4 5 by (intro conjI)
qed

text \<open>
  C5, amended. For a capacity that is not negative, the total weight (as computed by
  \<open>sum_food_vector\<close>) of every subset returned by \<open>exhaustive_max_calories\<close> is at most
  the capacity, and so is the total weight of every subset returned by
  \<open>dynamic_max_calories\<close> on a catalog whose weights are non-negative integers.
\<close>

theorem returned_weight_within_capacity:
  assumes "0 \<le> W"
  shows "(\<forall>best. exhaustive_max_calories foods W = Inr best \<longrightarrow>
             fst (sum_food_vector best) \<le> W)
       \<and> ((\<forall>f\<in>set foods. weight f \<in> \<nat>) \<longrightarrow>
            (\<forall>best. dynamic_max_calories foods W = Inr best \<longrightarrow>
               fst (sum_food_vector best) \<le> W))"
proof (intro conjI impI allI)
  fix best
  assume "exhaustive_max_calories foods W = Inr best"
  then have "best = [] \<or> (total_weight_of best \<le> W \<and> 0 < total_calories_of best)"
    by (rule exhaustive_best_props(2))
  then have "total_weight_of best \<le> W" using assms by auto
  then show "fst (sum_food_vector best) \<le> W" unfolding total_weight_of_def .
next
  fix best
  assume "\<forall>f\<in>set foods. weight f \<in> \<nat>" and "dynamic_max_calories foods W = Inr best"
  with assms have "total_weight_of best \<le> W"
    using dynamic_weight_fits(2) by blast
  then show "fst (sum_food_vector best) \<le> W" unfolding total_weight_of_def .
qed

text \<open>An instance: both solvers on two items of weight 2 and 3 under capacity 4.\<close>

theorem returned_weight_example:
  "exhaustive_max_calories [item 2 3, item 3 4] 4 = Inr [item 3 4]
   \<and> dynamic_max_calories [item 2 3, item 3 4] 4 = Inr [item 3 4]
   \<and> fst (sum_food_vector [item 3 4]) \<le> 4"
proof -
  have e: "exhaustive_max_calories [item 2 3, item 3 4] 4 = Inr [item 3 4]" by code_simp
  have d: "dynamic_max_calories [item 2 3, item 3 4] 4 = Inr [item 3 4]" by code_simp
  have p: "(0::real) \<le> 4" by simp
  have a: "\<forall>best. exhaustive_max_calories [item 2 3, item 3 4] 4 = Inr best \<longrightarrow>
             fst (sum_food_vector best) \<le> 4"
    using returned_weight_within_capacity [OF p, of "[item 2 3, item 3 4]"] by (rule conjunct1)
  have w: "\<forall>f\<in>set [item 2 3, item 3 4]. weight f \<in> \<nat>" by (simp add: item_def)
  have b: "\<forall>best. dynamic_max_calories [item 2 3, item 3 4] 4 = Inr best \<longrightarrow>
             fst (sum_food_vector best) \<le> 4"
    using returned_weight_within_capacity [OF p, of "[item 2 3, item 3 4]"]
    by (rule conjunct2 [THEN mp, OF _ w])
  have 1: "fst (sum_food_vector [item 3 4]) \<le> 4" using a [rule_format, OF e] .
  have 2: "fst (sum_food_vector [item 3 4]) \<le> 4" using b [rule_format, OF d] .
  show ?thesis using e d 1 by (intro conjI)
qed

section \<open>Arguments outside the contract, and the two solvers together\<close>

lemma exhaustive_negative_capacity:
  assumes "W < 0" and "\<forall>f\<in>set foods. 0 \<le> weight f"
    and "exhaustive_max_calories foods W = Inr best"
  shows "best = []"
proof (rule ccontr)
  assume "best \<noteq> []"
  then have "total_weight_of best \<le> W" using exhaustive_best_props(2) [OF assms(3)] by blast
  moreover have "\<forall>f\<in>set best. 0 \<le> weight f"
    using exhaustive_best_props(3) [OF assms(3)] assms(2) by (rule subseq_all)
  then have "0 \<le> total_weight_of best" by (rule total_weight_nonneg)
  ultimately show False using assms(1) by linarith
qed

lemma dynamic_empty_catalog:
  assumes "W < 0" and "- (2 ^ 31) \<le> W"
  shows "dynamic_max_calories [] W = Inr []"
proof -
  have "W < 2 ^ 31 - 1" using assms(1) by simp
  then have T: "dp_table [] W = Inr [map (\<lambda>init. 0) (dp_columns W)]"
    unfolding dp_table_def by simp
  have "\<lceil>- ((2::real) ^ 31)\<rceil> \<le> \<lceil>W\<rceil>" using assms(2) by (rule ceiling_mono)
  then have 1: "- (2 ^ 31) \<le> \<lceil>W\<rceil>" by simp
  have "\<lceil>W\<rceil> \<le> \<lceil>0::real\<rceil>" using assms(1) by (intro ceiling_mono) simp
  then have 2: "\<lceil>W\<rceil> < 2 ^ 31" by simp
  have t: "trunc W = \<lceil>W\<rceil>" using assms(1) by (simp add: trunc_def)
  have d: "double_to_int W = Some \<lceil>W\<rceil>" unfolding double_to_int_def t using 1 2 by simp
  show ?thesis unfolding dynamic_max_calories_def T d by simp
qed

text \<open>
  C7, as stated, fails for the solvers: neither checks its capacity, and both return for a
  negative one.
\<close>

theorem negative_capacity_not_rejected:
  "exhaustive_max_calories [item 2 3, item 3 4] (- 5) = Inr []
   \<and> dynamic_max_calories [] (- 5) = Inr []"
proof -
  have "exhaustive_max_calories [item 2 3, item 3 4] (- 5) = Inr []" by code_simp
  moreover have "dynamic_max_calories [] (- 5) = Inr []" by code_simp
  ultimately show ?thesis by (rule conjI)
qed

text \<open>
  C7, amended. \<open>filter_food_vector\<close> rejects a \<open>total_size\<close> that is not positive before
  it looks at the source, returning no vector. The solvers do not reject a negative
  capacity: \<open>exhaustive_max_calories\<close> returns the empty subset for it, on every catalog of
  fewer than 31 items whose weights are not negative, and \<open>dynamic_max_calories\<close> returns
  the empty subset for it on the empty catalog, as long as the capacity is not below
  \<open>-2^31\<close> and so converts to the \<open>int step\<close>.
\<close>

theorem invalid_arguments:
  "(total_size \<le> 0 \<longrightarrow>
      filter_food_vector source min_calories max_calories total_size = None)
   \<and> (W < 0 \<longrightarrow> (\<forall>f\<in>set foods. 0 \<le> weight f) \<longrightarrow> length foods < 31 \<longrightarrow>
        exhaustive_max_calories foods W = Inr [])
   \<and> (W < 0 \<longrightarrow> - (2 ^ 31) \<le> W \<longrightarrow> dynamic_max_calories [] W = Inr [])"
proof (intro conjI impI)
  show "filter_food_vector source min_calories max_calories total_size = None"
    if "total_size \<le> 0"
    using that by (simp add: filter_food_vector_def)
  show "exhaustive_max_calories foods W = Inr []"
    if h: "W < 0" "\<forall>f\<in>set foods. 0 \<le> weight f" "length foods < 31"
  proof -
    obtain best where b: "exhaustive_max_calories foods W = Inr best"
      using exhaustive_returns [OF h(3)] by blast
    from h(1,2) b have "best = []" by (rule exhaustive_negative_capacity)
    with b show ?thesis by simp
  qed
  show "dynamic_max_calories [] W = Inr []" if "W < 0" and "- (2 ^ 31) \<le> W"
    using that by (rule dynamic_empty_catalog)
qed

text \<open>An instance: size 0 for the filter, capacity -2 for the solvers.\<close>

theorem invalid_arguments_example:
  "filter_food_vector [item 1 5, item 1 50] 10 100 0 = None
   \<and> exhaustive_max_calories [item 1 1] (- 2) = Inr []
   \<and> dynamic_max_calories [] (- 2) = Inr []"
  using invalid_arguments [of 0 "[item 1 5, item 1 50]" 10 100 "- 2" "[item 1 1]"]
  by (simp add: item_def)

lemma exhaustive_monotone:
  assumes "c1 \<le> c2"
    and "exhaustive_max_calories foods c1 = Inr b1"
    and "exhaustive_max_calories foods c2 = Inr b2"
  shows "total_calories_of b1 \<le> total_calories_of b2"
proof (cases "b1 = []")
  case True
  then show ?thesis using exhaustive_best_props(1) [OF assms(3)] by simp
next
  case False
  then have "total_weight_of b1 \<le> c1" using exhaustive_best_props(2) [OF assms(2)] by blast
  then have "total_weight_of b1 \<le> c2" using assms(1) by linarith
  with exhaustive_best_props(3) [OF assms(2)] show ?thesis
    by (rule exhaustive_best_props(4) [OF assms(3)])
qed

lemma dynamic_monotone:
  assumes "c1 \<le> c2" and "integral_catalog foods"
    and "dynamic_max_calories foods c1 = Inr b1"
    and "dynamic_max_calories foods c2 = Inr b2"
  shows "total_calories_of b1 \<le> total_calories_of b2"
proof -
  note w0 = Nats_weights_nonneg [OF integral_catalog_weights [OF assms(2)]]
  have nonneg: "0 \<le> total_calories_of b2"
  proof (cases "0 \<le> c2")
    case True
    with assms(2) have "total_calories_of b2 = dp_ideal foods (length foods) (nat \<lfloor>c2\<rfloor>)"
      using assms(4) by (rule dynamic_calories_ideal(1))
    then show ?thesis using dp_ideal_nonneg [of foods "length foods" "nat \<lfloor>c2\<rfloor>"]
      by simp
  next
    case False
    then have "c2 < 0" by simp
    with w0 have "b2 = []" using assms(4) by (rule dynamic_negative_capacity(2))
    then show ?thesis by simp
  qed
  show ?thesis
  proof (cases "0 \<le> c1")
    case True
    then have c2: "0 \<le> c2" using assms(1) by linarith
    have t1: "total_calories_of b1 = dp_ideal foods (length foods) (nat \<lfloor>c1\<rfloor>)"
      using assms(2) True assms(3) by (rule dynamic_calories_ideal(1))
    have t2: "total_calories_of b2 = dp_ideal foods (length foods) (nat \<lfloor>c2\<rfloor>)"
      using assms(2) c2 assms(4) by (rule dynamic_calories_ideal(1))
    have "\<lfloor>c1\<rfloor> \<le> \<lfloor>c2\<rfloor>" using assms(1) by (rule floor_mono)
    then have "nat \<lfloor>c1\<rfloor> \<le> nat \<lfloor>c2\<rfloor>" by (rule nat_mono)
    then have "dp_ideal foods (length foods) (nat \<lfloor>c1\<rfloor>)
                 \<le> dp_ideal foods (length foods) (nat \<lfloor>c2\<rfloor>)"
      by (rule dp_ideal_mono)
    then show ?thesis by (simp only: t1 t2)
  next
    case False
    then have "c1 < 0" by simp
    with w0 have "b1 = []" using assms(3) by (rule dynamic_negative_capacity(2))
    then show ?thesis using nonneg by simp
  qed
qed

text \<open>
  C8, as stated, fails for the dynamic program when a sum of calories is rounded: with
  calories 1, \<open>2^53 + 2\<close>, 3 and 5, all of weight 1, it returns \<open>2^53 + 8\<close> calories at
  capacity 2 and \<open>2^53 + 4\<close> calories at capacity 3.
\<close>

theorem dynamic_capacity_not_monotone:
  "dynamic_max_calories [item 1 1, item 1 (2 ^ 53 + 2), item 1 3, item 1 5] 2
     = Inr [item 1 5, item 1 (2 ^ 53 + 2)]
   \<and> dynamic_max_calories [item 1 1, item 1 (2 ^ 53 + 2), item 1 3, item 1 5] 3
     = Inr [item 1 3, item 1 (2 ^ 53 + 2), item 1 1]
   \<and> total_calories_of [item 1 5, item 1 (2 ^ 53 + 2)] = 2 ^ 53 + 8
   \<and> total_calories_of [item 1 3, item 1 (2 ^ 53 + 2), item 1 1] = 2 ^ 53 + 4
   \<and> \<not> total_calories_of [item 1 5, item 1 (2 ^ 53 + 2)]
         \<le> total_calories_of [item 1 3, item 1 (2 ^ 53 + 2), item 1 1]"
proof -
  have 1: "dynamic_max_calories [item 1 1, item 1 (2 ^ 53 + 2), item 1 3, item 1 5] 2
     = Inr [item 1 5, item 1 (2 ^ 53 + 2)]"
    by code_simp
  have 2: "dynamic_max_calories [item 1 1, item 1 (2 ^ 53 + 2), item 1 3, item 1 5] 3
     = Inr [item 1 3, item 1 (2 ^ 53 + 2), item 1 1]"
    by code_simp
  have 3: "total_calories_of [item 1 5, item 1 (2 ^ 53 + 2)] = 2 ^ 53 + 8"
    by code_simp
  have 4: "total_calories_of [item 1 3, item 1 (2 ^ 53 + 2), item 1 1] = 2 ^ 53 + 4"
    by code_simp
  have 5: "\<not> total_calories_of [item 1 5, item 1 (2 ^ 53 + 2)]
         \<le> total_calories_of [item 1 3, item 1 (2 ^ 53 + 2), item 1 1]"
    unfolding 3 4 by simp
  show ?thesis using 1 2 3 4 5 by (intro conjI)
qed

text \<open>
  C8, amended. For a fixed catalog and capacities \<open>c1 \<le> c2\<close>, the subset returned at
  \<open>c2\<close> has at least the calories of the subset returned at \<open>c1\<close> (calories as
  \<open>sum_food_vector\<close> computes them): for the exhaustive search on every catalog, and for
  the dynamic program on a catalog whose weights are non-negative integers and whose
  calories are integers with absolute values adding up to at most \<open>2^53\<close>.
\<close>

theorem capacity_monotonicity:
  assumes "c1 \<le> c2"
  shows "(\<forall>b1 b2. exhaustive_max_calories foods c1 = Inr b1 \<longrightarrow>
                  exhaustive_max_calories foods c2 = Inr b2 \<longrightarrow>
                  total_calories_of b1 \<le> total_calories_of b2)
       \<and> (integral_catalog foods \<longrightarrow>
            (\<forall>b1 b2. dynamic_max_calories foods c1 = Inr b1 \<longrightarrow>
                     dynamic_max_calories foods c2 = Inr b2 \<longrightarrow>
                     total_calories_of b1 \<le> total_calories_of b2))"
proof (intro conjI impI allI)
  fix b1 b2
  assume "exhaustive_max_calories foods c1 = Inr b1" and "exhaustive_max_calories foods c2 = Inr b2"
  with assms show "total_calories_of b1 \<le> total_calories_of b2" by (rule exhaustive_monotone)
next
  fix b1 b2
  assume "integral_catalog foods"
    and "dynamic_max_calories foods c1 = Inr b1" and "dynamic_max_calories foods c2 = Inr b2"
  with assms show "total_calories_of b1 \<le> total_calories_of b2" by (rule dynamic_monotone)
qed

text \<open>An instance: capacities 2 and 5 on items of weight 2 and 3.\<close>

theorem capacity_monotonicity_example:
  "exhaustive_max_calories [item 2 3, item 3 4] 2 = Inr [item 2 3]
   \<and> exhaustive_max_calories [item 2 3, item 3 4] 5 = Inr [item 2 3, item 3 4]
   \<and> dynamic_max_calories [item 2 3, item 3 4] 2 = Inr [item 2 3]
   \<and> dynamic_max_calories [item 2 3, item 3 4] 5 = Inr [item 3 4, item 2 3]
   \<and> total_calories_of [item 2 3] \<le> total_calories_of [item 2 3, item 3 4]
   \<and> total_calories_of [item 2 3] \<le> total_calories_of [item 3 4, item 2 3]"
proof -
  let ?F = "[item 2 3, item 3 4]"
  have e1: "exhaustive_max_calories ?F 2 = Inr [item 2 3]" by code_simp
  have e2: "exhaustive_max_calories ?F 5 = Inr [item 2 3, item 3 4]" by code_simp
  have d1: "dynamic_max_calories ?F 2 = Inr [item 2 3]" by code_simp
  have d2: "dynamic_max_calories ?F 5 = Inr [item 3 4, item 2 3]" by code_simp
  have w: "integral_catalog ?F" by (simp add: integral_catalog_def item_def)
  have c: "(2::real) \<le> 5" by simp
  note m = capacity_monotonicity [OF c, of ?F]
  have a: "total_calories_of [item 2 3] \<le> total_calories_of [item 2 3, item 3 4]"
    using m [THEN conjunct1, rule_format, OF e1 e2] .
  have b: "total_calories_of [item 2 3] \<le> total_calories_of [item 3 4, item 2 3]"
    using m [THEN conjunct2, THEN mp, OF w, rule_format, OF d1 d2] .
  show ?thesis using e1 e2 d1 d2 a b by (intro conjI)
qed

text \<open>
  C1, as stated, fails in two ways. When a sum of calories is rounded the two solvers
  return different totals: with calories 1, \<open>2^53\<close> and 2, all of weight 1, and capacity 3,
  the exhaustive search returns \<open>2^53 + 2\<close> calories and the dynamic program
  \<open>2^53 + 4\<close>. And for a capacity of \<open>INT_MAX\<close> the exhaustive search returns a subset
  while the column counter of the dynamic program overflows.
\<close>

theorem exhaustive_dynamic_disagree:
  "exhaustive_max_calories [item 1 1, item 1 (2 ^ 53), item 1 2] 3
     = Inr [item 1 (2 ^ 53), item 1 2]
   \<and> dynamic_max_calories [item 1 1, item 1 (2 ^ 53), item 1 2] 3
     = Inr [item 1 2, item 1 (2 ^ 53), item 1 1]
   \<and> total_calories_of [item 1 (2 ^ 53), item 1 2] = 2 ^ 53 + 2
   \<and> total_calories_of [item 1 2, item 1 (2 ^ 53), item 1 1] = 2 ^ 53 + 4
   \<and> exhaustive_max_calories [item 1 1] (2 ^ 31 - 1) = Inr [item 1 1]
   \<and> dynamic_max_calories [item 1 1] (2 ^ 31 - 1) = Inl IntOverflow"
proof -
  have 1: "exhaustive_max_calories [item 1 1, item 1 (2 ^ 53), item 1 2] 3
     = Inr [item 1 (2 ^ 53), item 1 2]"
    by code_simp
  have 2: "dynamic_max_calories [item 1 1, item 1 (2 ^ 53), item 1 2] 3
     = Inr [item 1 2, item 1 (2 ^ 53), item 1 1]"
    by code_simp
  have 3: "total_calories_of [item 1 (2 ^ 53), item 1 2] = 2 ^ 53 + 2"
    by code_simp
  have 4: "total_calories_of [item 1 2, item 1 (2 ^ 53), item 1 1] = 2 ^ 53 + 4"
    by code_simp
  have 5: "exhaustive_max_calories [item 1 1] (2 ^ 31 - 1) = Inr [item 1 1]"
    by code_simp
  have 6: "dynamic_max_calories [item 1 1] (2 ^ 31 - 1) = Inl IntOverflow"
    by (simp add: dynamic_max_calories_def dp_table_def)
  show ?thesis using 1 2 3 4 5 6 by (intro conjI)
qed

text \<open>
  C1, amended. On a catalog of fewer than 20 items whose weights are non-negative integers
  and whose calories are integers with absolute values adding up to at most \<open>2^53\<close>, and
  for a capacity that is a non-negative integer below \<open>INT_MAX\<close>, both solvers return a
  subset, and the two subsets have the same total calories.
\<close>

theorem exhaustive_dynamic_agree:
  assumes "length foods < 20" and "integral_catalog foods" and "W \<in> \<nat>" and "W < 2 ^ 31 - 1"
  shows "\<exists>b1 b2. exhaustive_max_calories foods W = Inr b1
           \<and> dynamic_max_calories foods W = Inr b2
           \<and> total_calories_of b1 = total_calories_of b2"
proof -
  note W = Nats_floor_real [OF assms(3)]
  note wN = integral_catalog_weights [OF assms(2)]
  note w0 = Nats_weights_nonneg [OF wN]
  note cb = capacity_column_bound [OF W(1) assms(4)]
  have "length foods < 31" using assms(1) by simp
  then obtain b1 where b1: "exhaustive_max_calories foods W = Inr b1"
    using exhaustive_returns by blast
  define b2 where "b2 = trace_items foods (length foods) (nat \<lfloor>W\<rfloor>)"
  have b2: "dynamic_max_calories foods W = Inr b2"
    unfolding b2_def using w0 W(1) assms(4) by (rule dynamic_returns)
  have f1: "total_weight_of b1 \<le> W"
    using exhaustive_best_props(2) [OF b1] W(1) by auto
  have s1: "subseq b1 foods" by (rule exhaustive_best_props(3) [OF b1])
  have le: "total_calories_of b1 \<le> total_calories_of b2"
    using assms(2,3) b2 s1 f1 by (rule dynamic_optimal)
  have s2: "subseq (rev b2) foods" unfolding b2_def by (rule trace_items_subseq)
  have i2: "integral_catalog b2" using assms(2) W(1) b2 by (rule dynamic_calories_ideal(2))
  then have ir: "integral_catalog (rev b2)" by (simp only: integral_catalog_rev)
  have "sum_list (map weight (rev b2)) = sum_list (map weight b2)"
    by (simp add: rev_map [symmetric])
  also have "\<dots> \<le> W" using wN W(1) b2 by (rule dynamic_weight_fits(1))
  finally have "sum_list (map weight (rev b2)) \<le> W" .
  moreover have "total_weight_of (rev b2) \<le> W \<longleftrightarrow> sum_list (map weight (rev b2)) \<le> W"
    using integral_catalog_weights [OF ir] cb(3) by (rule integral_total_weight_le)
  ultimately have f2: "total_weight_of (rev b2) \<le> W" by simp
  have "total_calories_of (rev b2) \<le> total_calories_of b1"
    using s2 f2 by (rule exhaustive_best_props(4) [OF b1])
  moreover have "total_calories_of (rev b2) = sum_list (map foodCalories (rev b2))"
    using ir by (rule integral_total_calories)
  moreover have "sum_list (map foodCalories (rev b2)) = sum_list (map foodCalories b2)"
    by (simp add: rev_map [symmetric])
  moreover have "total_calories_of b2 = sum_list (map foodCalories b2)"
    using i2 by (rule integral_total_calories)
  ultimately have ge: "total_calories_of b2 \<le> total_calories_of b1" by linarith
  have "total_calories_of b1 = total_calories_of b2" using le ge by (rule antisym)
  with b1 b2 show ?thesis by (intro exI conjI)
qed

text \<open>An instance: three items under capacity 5; both solvers reach 7 calories.\<close>

theorem exhaustive_dynamic_agree_example:
  "exhaustive_max_calories [item 2 3, item 3 4, item 4 5] 5 = Inr [item 2 3, item 3 4]
   \<and> dynamic_max_calories [item 2 3, item 3 4, item 4 5] 5 = Inr [item 3 4, item 2 3]
   \<and> total_calories_of [item 2 3, item 3 4] = total_calories_of [item 3 4, item 2 3]"
proof -
  let ?F = "[item 2 3, item 3 4, item 4 5]"
  have e: "exhaustive_max_calories ?F 5 = Inr [item 2 3, item 3 4]" by code_simp
  have d: "dynamic_max_calories ?F 5 = Inr [item 3 4, item 2 3]" by code_simp
  have l: "length ?F < 20" by simp
  have w: "integral_catalog ?F" by (simp add: integral_catalog_def item_def)
  have n: "(5::real) \<in> \<nat>" by (metis Nats_numeral)
  have c: "(5::real) < 2 ^ 31 - 1" by simp
  from exhaustive_dynamic_agree [OF l w n c]
  obtain b1 b2 where b: "exhaustive_max_calories ?F 5 = Inr b1"
     "dynamic_max_calories ?F 5 = Inr b2" "total_calories_of b1 = total_calories_of b2"
    by (elim exE conjE)
  have 1: "b1 = [item 2 3, item 3 4]" using b(1) e by simp
  have 2: "b2 = [item 3 4, item 2 3]" using b(2) d by simp
  have "total_calories_of [item 2 3, item 3 4] = total_calories_of [item 3 4, item 2 3]"
    using b(3) unfolding 1 2 .
  with e d show ?thesis by (intro conjI)
qed

section \<open>The exhaustive search and the width of its mask counter\<close>

text \<open>
  C4. Every catalog of fewer than 64 items should be enumerated in full, as the assertion
  and the comment above the function say. With 31 items \<open>pow(2, 31)\<close> does not fit the
  \<open>int\<close> it is stored in, and no subset is enumerated.
\<close>

theorem exhaustive_31_items_overflow:
  "exhaustive_max_calories (replicate 31 (item 1 1)) total_weight = Inl IntOverflow"
  by (simp add: exhaustive_max_calories_def double_to_int_def trunc_def)

text \<open>
  C2. Forty items of weight 1 and one calorie each fit a capacity of 40 together, so the best
  subset is the whole catalog; the call ends in the overflow of \<open>bitSize\<close> instead.
\<close>

theorem exhaustive_40_items_no_optimum:
  "exhaustive_max_calories (replicate 40 (item 1 1)) 40 = Inl IntOverflow"
  by (simp add: exhaustive_max_calories_def double_to_int_def trunc_def)

end
